theory Spec2Isabelle
  imports
    Main
    "HOL-Library.AList"
    "HOL-Library.Char_ord"
    "HOL-Library.List_Lexorder"
    "HOL-Library.Multiset"
begin

section \<open>Directory-Analyzer: a shallow embedding of analyzeDir.cpp\<close>

text \<open>
  The program walks the directory tree below the current working directory once
  (\<open>get_dir_stats\<close>), filling three process-wide hash tables on the way, and then
  assembles a \<open>Results\<close> value (\<open>analyzeDir\<close>).  The embedding keeps the shape of the
  source:

  \<^item> the structs \<open>ImageInfo\<close>, \<open>Results\<close> and \<open>DirStats\<close> are records;
  \<^item> the three global \<open>std::unordered_map\<close>s are association lists with distinct keys,
    held in the record \<open>globals\<close>, which every function that touches them takes and
    returns;
  \<^item> \<open>print_error\<close> ends the process: every call of it is the result
    \<open>Inl (ProgramExit message)\<close>;
  \<^item> the file system is what the system calls report: a finite tree \<open>fsnode\<close> that
    records, for every directory entry, what \<open>stat\<close>, \<open>opendir\<close>/\<open>readdir\<close>, \<open>fopen\<close>/\<open>fgetc\<close>
    and \<open>popen\<close>/\<open>fgets\<close>/\<open>pclose\<close> answer for it;
  \<^item> a value of the C type \<open>int\<close> or \<open>long\<close> is an \<open>int\<close>; where the program adds to an
    \<open>int\<close> counter of a table, adds to the \<open>long\<close> total size or multiplies two \<open>long\<close>
    dimensions, the result is reduced to the 32 or 64 bits of the type (\<open>to_int\<close>,
    \<open>to_long\<close>).
\<close>

subsection \<open>Constants\<close>

definition CURRENT_DIRECTORY :: string where
  "CURRENT_DIRECTORY = ''.''"

definition PREVIOUS_DIRECTORY :: string where
  "PREVIOUS_DIRECTORY = ''..''"

definition PATH_SEPARATOR :: char where
  "PATH_SEPARATOR = CHR ''/''"

definition NO_PATH :: string where
  "NO_PATH = ''''"

definition SYSCALL_SUCCESS :: int where
  "SYSCALL_SUCCESS = 0"

definition DEFAULT_LARGEST_SIZE :: int where
  "DEFAULT_LARGEST_SIZE = - 1"

definition MIN_WORD_SIZE :: nat where
  "MIN_WORD_SIZE = 5"

subsection \<open>Machine integers\<close>

text \<open>
  \<open>int\<close> has 32 bits and \<open>long\<close> has 64, as on Linux and macOS, the first two platforms
  that \<open>print_error\<close> provides for.  C++ leaves signed overflow undefined; the compiled
  program adds and multiplies in two's complement, so a sum or product that
  leaves the range of its type comes out reduced modulo \<open>2^32\<close> or \<open>2^64\<close> into the range,
  and so does a \<open>long\<close> stored into an \<open>int\<close>.  \<open>to_int\<close> and \<open>to_long\<close> are these reductions.
  They are applied to the counters of the two \<open>int\<close> tables, to the total size and to the
  pixel products.  The counters \<open>n_files\<close> and \<open>n_dirs\<close> of \<open>DirStats\<close> are \<open>long\<close> and grow by
  one for every directory entry read, and the sizes that \<open>analyzeDir\<close> converts to \<open>int\<close>
  are numbers of elements of a vector; these are taken as they are.
\<close>

definition INT_MAX :: int where
  "INT_MAX = 2 ^ 31 - 1"

definition INT_MIN :: int where
  "INT_MIN = - (2 ^ 31)"

definition LONG_MAX :: int where
  "LONG_MAX = 2 ^ 63 - 1"

definition LONG_MIN :: int where
  "LONG_MIN = - (2 ^ 63)"

definition to_int :: "int \<Rightarrow> int" where
  "to_int x = (x - INT_MIN) mod 2 ^ 32 + INT_MIN"

definition to_long :: "int \<Rightarrow> int" where
  "to_long x = (x - LONG_MIN) mod 2 ^ 64 + LONG_MIN"

subsection \<open>Character classes of the C locale\<close>

text \<open>
  \<open>main\<close> never calls \<open>setlocale\<close>, so \<open>tolower\<close>, \<open>isalpha\<close>, \<open>isspace\<close> and
  \<open>isdigit\<close> are those of the "C" locale: the 26 ASCII letters in both cases, the six
  ASCII white-space characters, the ten digits.
\<close>

definition upper_letters :: string where
  "upper_letters = ''ABCDEFGHIJKLMNOPQRSTUVWXYZ''"

definition lower_letters :: string where
  "lower_letters = ''abcdefghijklmnopqrstuvwxyz''"

definition tolower :: "char \<Rightarrow> char" where
  "tolower c = (case map_of (zip upper_letters lower_letters) c of Some l \<Rightarrow> l | None \<Rightarrow> c)"

definition isalpha :: "char \<Rightarrow> bool" where
  "isalpha c = (c \<in> set (upper_letters @ lower_letters))"

definition isspace :: "char \<Rightarrow> bool" where
  "isspace c = (c \<in> set [CHR '' '', CHR 0x09, CHR 0x0A, CHR 0x0B, CHR 0x0C, CHR 0x0D])"

definition isdigit :: "char \<Rightarrow> bool" where
  "isdigit c = (c \<in> set ''0123456789'')"

subsection \<open>String parsers\<close>

text \<open>\<open>ends_with\<close>: \<open>str.compare(str.size() - suffix.size(), suffix.size(), suffix) == 0\<close>.\<close>

definition ends_with :: "string \<Rightarrow> string \<Rightarrow> bool" where
  "ends_with str suffix =
     (if length str < length suffix then False
      else drop (length str - length suffix) str = suffix)"

text \<open>\<open>clean_path\<close>: \<open>path.rfind("./", 0) == 0\<close> holds when the path starts with \<open>./\<close>.\<close>

definition clean_path :: "string \<Rightarrow> string" where
  "clean_path path =
     (if take 2 path = CURRENT_DIRECTORY @ [PATH_SEPARATOR] then drop 2 path else path)"

definition lowercase :: "string \<Rightarrow> string" where
  "lowercase str = map tolower str"

subsection \<open>Structs\<close>

record ImageInfo =
  path :: string
  width :: int
  height :: int

record Results =
  largest_file_path :: string
  largest_file_size :: int
  n_files :: int
  n_dirs :: int
  all_files_size :: int
  most_common_words :: "(string \<times> int) list"
  largest_images :: "ImageInfo list"
  vacant_dirs :: "string list"

text \<open>
  \<open>DirStats\<close> repeats five field names of \<open>Results\<close>.  It is declared second, as in the
  source, so an unqualified field name below is the one of \<open>DirStats\<close> and the fields of
  the result are written \<open>Results.n_files\<close> and so on.
\<close>

record DirStats =
  largest_file_path :: string
  largest_file_size :: int
  n_files :: int
  n_dirs :: int
  all_files_size :: int
  largest_images :: "ImageInfo list"

text \<open>The default member initialisers of \<open>DirStats\<close>.\<close>

definition DirStats_init :: DirStats where
  "DirStats_init =
     \<lparr>largest_file_path = NO_PATH, largest_file_size = DEFAULT_LARGEST_SIZE,
      n_files = 0, n_dirs = 1, all_files_size = 0, largest_images = []\<rparr>"

subsection \<open>Globals\<close>

text \<open>
  An \<open>std::unordered_map\<close> is an association list with distinct keys.  \<open>m[k]\<close> read as a
  value is \<open>at m k\<close> (a missing key is value-initialised to 0 or to the empty string),
  \<open>m[k] = v\<close> is \<open>AList.update k v m\<close>.  The order of the list stands for the iteration
  order of the table, which C++ leaves unspecified; the program sorts whatever it reads
  out of a table.
\<close>

record globals =
  parent_map :: "(string \<times> string) list"
  n_files_map :: "(string \<times> int) list"
  most_common_words_map :: "(string \<times> int) list"

definition globals_init :: globals where
  "globals_init = \<lparr>parent_map = [], n_files_map = [], most_common_words_map = []\<rparr>"

definition at :: "('k \<times> int) list \<Rightarrow> 'k \<Rightarrow> int" where
  "at m k = (case map_of m k of None \<Rightarrow> 0 | Some v \<Rightarrow> v)"

definition parent_at :: "(string \<times> string) list \<Rightarrow> string \<Rightarrow> string" where
  "parent_at m k = (case map_of m k of None \<Rightarrow> [] | Some v \<Rightarrow> v)"

text \<open>
  \<open>m[k] += n\<close>, and \<open>m[k]++\<close> for \<open>n = 1\<close>, on a table of \<open>int\<close>; \<open>n\<close> may be a \<open>long\<close>, the
  sum is then computed in \<open>long\<close> and stored as an \<open>int\<close>.
\<close>

definition add_at :: "'k \<Rightarrow> int \<Rightarrow> ('k \<times> int) list \<Rightarrow> ('k \<times> int) list" where
  "add_at k n m = AList.update k (to_int (at m k + n)) m"

subsection \<open>Errors\<close>

text \<open>
  \<open>ProgramExit message\<close>: \<open>print_error(message)\<close> was called; on every platform it ends
  the process (\<open>error\<close> with the non-zero status \<open>SYSCALL_FAILED\<close>, or \<open>exit(EXIT_FAILURE)\<close>).
  \<open>LengthError\<close>: \<open>std::vector::resize\<close> was given a negative \<open>int\<close>, which converts to a
  size beyond \<open>max_size()\<close>.
\<close>

datatype error = ProgramExit string | LengthError

subsection \<open>The file system as the system calls report it\<close>

text \<open>
  What \<open>popen\<close>, \<open>fgets\<close> and \<open>pclose\<close> answer for the \<open>identify\<close> command on one file:
  \<open>PopenNull\<close> when \<open>popen\<close> returns a null pointer, otherwise the first line read by
  \<open>fgets\<close> (\<open>None\<close> when there is no output) and the status returned by \<open>pclose\<close>.
\<close>

datatype identify_run = PopenNull | Ran "string option" int

text \<open>
  A regular file: the size reported by the \<open>stat\<close> call in \<open>get_dir_stats\<close> (\<open>None\<close> when
  that call fails), the bytes \<open>fgetc\<close> delivers (\<open>None\<close> when \<open>fopen\<close> fails), and the run
  of \<open>identify\<close> on it.
\<close>

record regular_file =
  st_size :: "int option"
  bytes :: "string option"
  identify :: identify_run

text \<open>
  A directory entry is a regular file, a directory that \<open>opendir\<close> opens (with the
  entries \<open>readdir\<close> yields, in its order, \<open>.\<close> and \<open>..\<close> included if it yields them), a
  directory that \<open>opendir\<close> does not open, or anything else (\<open>stat\<close> fails, or the mode is
  neither \<open>S_ISREG\<close> nor \<open>S_ISDIR\<close>).
\<close>

datatype fsnode =
    RegFile regular_file
  | Dir "(string \<times> fsnode) list"
  | UnreadableDir
  | Other

fun is_file :: "fsnode \<Rightarrow> bool" where
  "is_file (RegFile f) = True"
| "is_file _ = False"

fun is_dir :: "fsnode \<Rightarrow> bool" where
  "is_dir (Dir entries) = True"
| "is_dir UnreadableDir = True"
| "is_dir _ = False"

subsection \<open>Comparators and sorting\<close>

definition ImageInfoComparator :: "ImageInfo \<Rightarrow> ImageInfo \<Rightarrow> bool" where
  "ImageInfoComparator image1 image2 =
     (let pixels1 = to_long (width image1 * height image1);
          pixels2 = to_long (width image2 * height image2)
      in if pixels1 \<noteq> pixels2 then pixels1 > pixels2
         else path image1 < path image2)"

definition WordFrequencyComparator :: "string \<times> int \<Rightarrow> string \<times> int \<Rightarrow> bool" where
  "WordFrequencyComparator word1 word2 =
     (if snd word1 \<noteq> snd word2 then snd word1 > snd word2
      else fst word1 < fst word2)"

text \<open>
  \<open>std::sort(first, last, comp)\<close> is modelled by insertion sort: \<open>insort_comp\<close> puts an
  element before the first one that does not come before it.  Elements that the
  comparator does not tell apart may come out of \<open>std::sort\<close> in any order; the model
  fixes one.
\<close>

fun insort_comp :: "('a \<Rightarrow> 'a \<Rightarrow> bool) \<Rightarrow> 'a \<Rightarrow> 'a list \<Rightarrow> 'a list" where
  "insort_comp cmp x [] = [x]"
| "insort_comp cmp x (y # ys) =
     (if cmp y x then y # insort_comp cmp x ys else x # y # ys)"

definition std_sort :: "('a \<Rightarrow> 'a \<Rightarrow> bool) \<Rightarrow> 'a list \<Rightarrow> 'a list" where
  "std_sort cmp xs = foldr (insort_comp cmp) xs []"

subsection \<open>The image prober\<close>

text \<open>
  \<open>iss >> width >> height\<close> on the line read by \<open>fgets\<close>.  Extracting a \<open>long\<close> skips
  white space, reads an optional sign and the longest run of digits.  With no digit the
  extraction fails and stores 0; a value outside the range of \<open>long\<close> fails and stores
  the nearest bound.  After a failure the stream is in a failed state and the second
  extraction stores nothing, so \<open>height\<close> keeps its initial 0.
\<close>

definition digit_value :: "char \<Rightarrow> int" where
  "digit_value c = (case map_of (zip ''0123456789'' [0, 1, 2, 3, 4, 5, 6, 7, 8, 9]) c of
                      Some d \<Rightarrow> d | None \<Rightarrow> 0)"

definition digits_value :: "string \<Rightarrow> int" where
  "digits_value ds = foldl (\<lambda>acc c. 10 * acc + digit_value c) 0 ds"

definition extract_long :: "string \<Rightarrow> int \<times> bool \<times> string" where
  "extract_long s =
     (let s1 = dropWhile isspace s;
          negative = (s1 \<noteq> [] \<and> hd s1 = CHR ''-'');
          s2 = (if s1 \<noteq> [] \<and> (hd s1 = CHR ''-'' \<or> hd s1 = CHR ''+'') then tl s1 else s1);
          ds = takeWhile isdigit s2;
          rest = dropWhile isdigit s2;
          v = (if negative then - digits_value ds else digits_value ds)
      in if ds = [] then (0, False, rest)
         else if v > LONG_MAX then (LONG_MAX, False, rest)
         else if v < LONG_MIN then (LONG_MIN, False, rest)
         else (v, True, rest))"

definition extract_width_height :: "string \<Rightarrow> int \<times> int" where
  "extract_width_height buffer =
     (case extract_long buffer of
        (w, ok, rest) \<Rightarrow> if ok then (w, fst (extract_long rest)) else (w, 0))"

definition get_image_info :: "string \<Rightarrow> identify_run \<Rightarrow> error + ImageInfo option" where
  "get_image_info file_path run =
     (case run of
        PopenNull \<Rightarrow> Inl (ProgramExit (''could not call identify via popen on %s'' @ file_path))
      | Ran line status \<Rightarrow>
          (let (w, h) = (case line of None \<Rightarrow> (0, 0)
                                    | Some buffer \<Rightarrow> extract_width_height buffer)
           in if status = SYSCALL_SUCCESS \<and> w > 0 \<and> h > 0
              then Inr (Some \<lparr>path = clean_path file_path, width = w, height = h\<rparr>)
              else Inr None))"

subsection \<open>The word counter\<close>

text \<open>
  The \<open>while (true)\<close> loop of \<open>count_words_in_file\<close> over the characters \<open>fgetc\<close> delivers;
  the state is the table and the buffer \<open>next_word\<close>.
\<close>

fun count_words_loop ::
  "(string \<times> int) list \<Rightarrow> string \<Rightarrow> string \<Rightarrow> (string \<times> int) list \<times> string" where
  "count_words_loop m next_word [] = (m, next_word)"
| "count_words_loop m next_word (c # cs) =
     (let c' = tolower c
      in if isalpha c' then count_words_loop m (next_word @ [c']) cs
         else count_words_loop
                (if length next_word \<ge> MIN_WORD_SIZE then add_at next_word 1 m else m) [] cs)"

definition count_words_in_file :: "globals \<Rightarrow> string \<Rightarrow> string option \<Rightarrow> error + globals" where
  "count_words_in_file g file_path file =
     (case file of
        None \<Rightarrow> Inl (ProgramExit (''could not open file '' @ file_path))
      | Some content \<Rightarrow>
          (case count_words_loop (most_common_words_map g) [] content of
             (m, next_word) \<Rightarrow>
               Inr (g\<lparr>most_common_words_map :=
                        (if length next_word \<ge> MIN_WORD_SIZE then add_at next_word 1 m else m)\<rparr>)))"

subsection \<open>The directory traversal\<close>

text \<open>The body of \<open>if (is_file(file_or_subdir_path))\<close> in \<open>get_dir_stats\<close>.\<close>

definition visit_file ::
  "globals \<Rightarrow> string \<Rightarrow> string \<Rightarrow> regular_file \<Rightarrow> DirStats \<Rightarrow> error + (DirStats \<times> globals)" where
  "visit_file g dir_path file_or_subdir_path f dir_stats =
     (let st1 = dir_stats\<lparr>n_files := n_files dir_stats + 1\<rparr>;
          g1 = g\<lparr>n_files_map := add_at dir_path 1 (n_files_map g)\<rparr>;
          st2 = (case st_size f of
                   None \<Rightarrow> st1
                 | Some size_of_file \<Rightarrow>
                     (let st' = (if size_of_file > largest_file_size st1
                                 then st1\<lparr>largest_file_path := clean_path file_or_subdir_path,
                                          largest_file_size := size_of_file\<rparr>
                                 else st1)
                      in st'\<lparr>all_files_size := to_long (all_files_size st' + size_of_file)\<rparr>))
      in case (if ends_with (lowercase file_or_subdir_path) ''.txt''
               then count_words_in_file g1 file_or_subdir_path (bytes f) else Inr g1) of
           Inl e \<Rightarrow> Inl e
         | Inr g2 \<Rightarrow>
             (case get_image_info file_or_subdir_path (identify f) of
                Inl e \<Rightarrow> Inl e
              | Inr None \<Rightarrow> Inr (st2, g2)
              | Inr (Some image_info) \<Rightarrow>
                  Inr (st2\<lparr>largest_images := largest_images st2 @ [image_info]\<rparr>, g2)))"

text \<open>The statements after the recursive call in the \<open>is_dir\<close> branch.\<close>

definition merge_subdir :: "globals \<Rightarrow> string \<Rightarrow> DirStats \<Rightarrow> DirStats \<Rightarrow> DirStats \<times> globals" where
  "merge_subdir g dir_path subdir_stats dir_stats =
     (let st1 = (if largest_file_size subdir_stats > largest_file_size dir_stats
                 then dir_stats\<lparr>largest_file_path := clean_path (largest_file_path subdir_stats),
                                largest_file_size := largest_file_size subdir_stats\<rparr>
                 else dir_stats)
      in (st1\<lparr>n_files := n_files st1 + n_files subdir_stats,
              n_dirs := n_dirs st1 + n_dirs subdir_stats,
              all_files_size := to_long (all_files_size st1 + all_files_size subdir_stats),
              largest_images := largest_images st1 @ largest_images subdir_stats\<rparr>,
          g\<lparr>n_files_map := add_at dir_path (n_files subdir_stats) (n_files_map g)\<rparr>))"

text \<open>
  \<open>get_dir_stats\<close> and its \<open>readdir\<close> loop.  The node is what the file system holds at
  \<open>dir_path\<close>; \<open>open_directory\<close> ends the program unless it is a directory that opens.
\<close>

function get_dir_stats ::
    "globals \<Rightarrow> string \<Rightarrow> string \<Rightarrow> fsnode \<Rightarrow> error + (DirStats \<times> globals)"
  and readdir_loop ::
    "globals \<Rightarrow> string \<Rightarrow> DirStats \<Rightarrow> (string \<times> fsnode) list \<Rightarrow> error + (DirStats \<times> globals)"
  where
  "get_dir_stats g dir_path parent_dir_path (Dir entries) =
     readdir_loop
       (g\<lparr>parent_map := AList.update dir_path parent_dir_path (parent_map g),
          n_files_map := AList.update dir_path 0 (n_files_map g)\<rparr>)
       dir_path DirStats_init entries"
| "get_dir_stats g dir_path parent_dir_path (RegFile f) =
     Inl (ProgramExit (''could not opendir '' @ dir_path))"
| "get_dir_stats g dir_path parent_dir_path UnreadableDir =
     Inl (ProgramExit (''could not opendir '' @ dir_path))"
| "get_dir_stats g dir_path parent_dir_path Other =
     Inl (ProgramExit (''could not opendir '' @ dir_path))"
| "readdir_loop g dir_path dir_stats [] = Inr (dir_stats, g)"
| "readdir_loop g dir_path dir_stats ((entry_name, node) # rest) =
     (if entry_name = CURRENT_DIRECTORY \<or> entry_name = PREVIOUS_DIRECTORY
      then readdir_loop g dir_path dir_stats rest
      else
        (let file_or_subdir_path = dir_path @ [PATH_SEPARATOR] @ entry_name
         in case node of
              RegFile f \<Rightarrow>
                (case visit_file g dir_path file_or_subdir_path f dir_stats of
                   Inl e \<Rightarrow> Inl e
                 | Inr (dir_stats', g') \<Rightarrow> readdir_loop g' dir_path dir_stats' rest)
            | Other \<Rightarrow> readdir_loop g dir_path dir_stats rest
            | _ \<Rightarrow>
                (case get_dir_stats g file_or_subdir_path dir_path node of
                   Inl e \<Rightarrow> Inl e
                 | Inr (subdir_stats, g') \<Rightarrow>
                     (case merge_subdir g' dir_path subdir_stats dir_stats of
                        (dir_stats', g'') \<Rightarrow> readdir_loop g'' dir_path dir_stats' rest))))"
  by pat_completeness auto
termination
  by (relation "measure (\<lambda>x. case x of
          Inl (g, dir_path, parent_dir_path, node) \<Rightarrow> size node
        | Inr (g, dir_path, dir_stats, entries) \<Rightarrow>
            size_list (size_prod (\<lambda>n. 0) size) entries)") auto

subsection \<open>The vacancy resolver and the result\<close>

text \<open>
  \<open>get_top_level_vacant_dirs\<close>.  The loop reads \<open>n_files_map[parent_map[dir_path]]\<close> only
  for a key whose count is 0; after a traversal every such key is a directory that
  \<open>get_dir_stats\<close> entered, so both tables hold the keys read and the loop inserts
  nothing while it iterates.
\<close>

definition get_top_level_vacant_dirs :: "globals \<Rightarrow> string list \<times> globals" where
  "get_top_level_vacant_dirs g =
     (let g1 = g\<lparr>n_files_map := AList.update NO_PATH 1 (n_files_map g)\<rparr>;
          top_level_vacant_dirs =
            map (\<lambda>(dir_path, n). clean_path dir_path)
              (filter (\<lambda>(dir_path, n).
                          n = 0 \<and> at (n_files_map g1) (parent_at (parent_map g1) dir_path) > 0)
                 (n_files_map g1))
      in (sort top_level_vacant_dirs, g1))"

text \<open>
  \<open>resize(std::min(static_cast<int>(v.size()), n))\<close>: the first so many elements, or
  \<open>std::length_error\<close> for a negative \<open>n\<close>.
\<close>

definition resize_min :: "int \<Rightarrow> 'a list \<Rightarrow> error + 'a list" where
  "resize_min n v = (if min (int (length v)) n < 0 then Inl LengthError
                     else Inr (take (nat (min (int (length v)) n)) v))"

definition analyzeDir :: "globals \<Rightarrow> fsnode \<Rightarrow> int \<Rightarrow> error + (Results \<times> globals)" where
  "analyzeDir g cwd n =
     (case get_dir_stats g CURRENT_DIRECTORY NO_PATH cwd of
        Inl e \<Rightarrow> Inl e
      | Inr (dir_stats, g1) \<Rightarrow>
          (case resize_min n (std_sort WordFrequencyComparator (most_common_words_map g1)) of
             Inl e \<Rightarrow> Inl e
           | Inr words \<Rightarrow>
               (case resize_min n (std_sort ImageInfoComparator (largest_images dir_stats)) of
                  Inl e \<Rightarrow> Inl e
                | Inr images \<Rightarrow>
                    (case get_top_level_vacant_dirs g1 of
                       (vacant, g2) \<Rightarrow>
                         Inr (\<lparr>Results.largest_file_path = largest_file_path dir_stats,
                               largest_file_size = largest_file_size dir_stats,
                               n_files = n_files dir_stats,
                               n_dirs = n_dirs dir_stats,
                               all_files_size = all_files_size dir_stats,
                               most_common_words = words,
                               largest_images = images,
                               vacant_dirs = vacant\<rparr>, g2)))))"

section \<open>Reference definitions\<close>

text \<open>
  The notions the properties below are stated with.  They are read off the file system
  tree directly and share nothing with the traversal.
\<close>

subsection \<open>Words of a text\<close>

text \<open>
  The maximal runs of alphabetic characters of a text, in order: a run starts at an
  alphabetic character that follows a non-alphabetic one (or starts the text) and ends
  before the next non-alphabetic character, or at the end of the text.
\<close>

function alpha_runs :: "string \<Rightarrow> string list" where
  "alpha_runs [] = []"
| "alpha_runs (c # cs) =
     (if isalpha c then (c # takeWhile isalpha cs) # alpha_runs (dropWhile isalpha cs)
      else alpha_runs cs)"
  by pat_completeness auto
termination
  by (relation "measure length") (auto simp: length_dropWhile_le less_Suc_eq_le)

text \<open>The runs of at least \<open>MIN_WORD_SIZE\<close> characters, lower-cased.\<close>

definition counted_words :: "string \<Rightarrow> string list" where
  "counted_words content =
     filter (\<lambda>w. length w \<ge> MIN_WORD_SIZE) (map lowercase (alpha_runs content))"

text \<open>What the word counter does with its buffer at a non-alphabetic character and at the end.\<close>

definition flush_word :: "(string \<times> int) list \<times> string \<Rightarrow> (string \<times> int) list" where
  "flush_word s = (case s of (m, next_word) \<Rightarrow>
      if length next_word \<ge> MIN_WORD_SIZE then add_at next_word 1 m else m)"

subsection \<open>Directory trees\<close>

text \<open>An entry the traversal skips by its name: the pseudo-entries \<open>.\<close> and \<open>..\<close>.\<close>

definition skipped :: "string \<Rightarrow> bool" where
  "skipped entry_name = (entry_name = CURRENT_DIRECTORY \<or> entry_name = PREVIOUS_DIRECTORY)"

definition child_path :: "string \<Rightarrow> string \<Rightarrow> string" where
  "child_path dir_path entry_name = dir_path @ [PATH_SEPARATOR] @ entry_name"

text \<open>
  The regular files at and below a node, each with its path, in depth-first order
  (the entries of a directory in the order \<open>readdir\<close> yields them).
\<close>

fun files_of :: "string \<Rightarrow> fsnode \<Rightarrow> (string \<times> regular_file) list" where
  "files_of p (RegFile f) = [(p, f)]"
| "files_of p (Dir entries) =
     concat (map (\<lambda>(entry_name, node).
                    if skipped entry_name then [] else files_of (child_path p entry_name) node)
               entries)"
| "files_of p UnreadableDir = []"
| "files_of p Other = []"

text \<open>The number of subdirectories transitively contained in a directory.\<close>

fun count_subdirs :: "fsnode \<Rightarrow> nat" where
  "count_subdirs (Dir entries) =
     (\<Sum>(entry_name, node)\<leftarrow>entries.
        if \<not> skipped entry_name \<and> is_dir node then 1 + count_subdirs node else 0)"
| "count_subdirs (RegFile f) = 0"
| "count_subdirs UnreadableDir = 0"
| "count_subdirs Other = 0"

text \<open>
  The recursive file count of a directory: its direct regular files plus the recursive
  file counts of its subdirectories.
\<close>

fun file_count :: "fsnode \<Rightarrow> nat" where
  "file_count (Dir entries) =
     (\<Sum>(entry_name, node)\<leftarrow>entries.
        if skipped entry_name then 0 else if is_file node then 1 else file_count node)"
| "file_count (RegFile f) = 0"
| "file_count UnreadableDir = 0"
| "file_count Other = 0"

subsection \<open>Successful traversals as a relation\<close>

text \<open>
  \<open>walk g p par node st g'\<close>: the call \<open>get_dir_stats(p, par)\<close> on \<open>node\<close>, started with the
  tables \<open>g\<close>, returns \<open>st\<close> and leaves the tables \<open>g'\<close>; \<open>walk_entries\<close> is the same for
  the rest of a \<open>readdir\<close> loop.  One rule per way through the loop body that does not
  end the program.  The relation only serves as an induction principle for the function
  (lemma \<open>get_dir_stats_walk\<close>).
\<close>

inductive walk :: "globals \<Rightarrow> string \<Rightarrow> string \<Rightarrow> fsnode \<Rightarrow> DirStats \<Rightarrow> globals \<Rightarrow> bool"
  and walk_entries ::
    "globals \<Rightarrow> string \<Rightarrow> DirStats \<Rightarrow> (string \<times> fsnode) list \<Rightarrow> DirStats \<Rightarrow> globals \<Rightarrow> bool"
  where
  walk_Dir:
    "walk_entries
       (g\<lparr>parent_map := AList.update p par (parent_map g),
          n_files_map := AList.update p 0 (n_files_map g)\<rparr>) p DirStats_init es st g'
     \<Longrightarrow> walk g p par (Dir es) st g'"
| walk_Nil: "walk_entries g p st [] st g"
| walk_skip:
    "skipped name \<Longrightarrow> walk_entries g p st rest st' g'
     \<Longrightarrow> walk_entries g p st ((name, node) # rest) st' g'"
| walk_Other:
    "\<not> skipped name \<Longrightarrow> walk_entries g p st rest st' g'
     \<Longrightarrow> walk_entries g p st ((name, Other) # rest) st' g'"
| walk_File:
    "\<not> skipped name \<Longrightarrow> visit_file g p (child_path p name) f st = Inr (st1, g1)
     \<Longrightarrow> walk_entries g1 p st1 rest st' g'
     \<Longrightarrow> walk_entries g p st ((name, RegFile f) # rest) st' g'"
| walk_Subdir:
    "\<not> skipped name \<Longrightarrow> walk g (child_path p name) p (Dir es) sub g1
     \<Longrightarrow> merge_subdir g1 p sub st = (st2, g2)
     \<Longrightarrow> walk_entries g2 p st2 rest st' g'
     \<Longrightarrow> walk_entries g p st ((name, Dir es) # rest) st' g'"

subsection \<open>Example files\<close>

text \<open>A file for which \<open>popen\<close> fails, and one that \<open>identify\<close> rejects with exit status 1.\<close>

definition popen_fails :: regular_file where
  "popen_fails = \<lparr>st_size = Some 1, bytes = Some [], identify = PopenNull\<rparr>"

definition not_an_image :: regular_file where
  "not_an_image = \<lparr>st_size = Some 4, bytes = Some ''text'', identify = Ran None 256\<rparr>"

subsection \<open>What the traversal collects from the files\<close>

text \<open>The sizes of the files whose size lookup succeeded, in the order of the files.\<close>

definition successful_sizes :: "(string \<times> regular_file) list \<Rightarrow> int list" where
  "successful_sizes fs = List.map_filter (\<lambda>(p, f). st_size f) fs"

text \<open>The image record of a file, if the prober returns one.\<close>

definition image_of :: "string \<times> regular_file \<Rightarrow> ImageInfo option" where
  "image_of pf = (case get_image_info (fst pf) (identify (snd pf)) of
                    Inr (Some image_info) \<Rightarrow> Some image_info | _ \<Rightarrow> None)"

text \<open>The words a file adds to the frequency table: those of a \<open>.txt\<close> file that opens.\<close>

definition words_of :: "string \<times> regular_file \<Rightarrow> string list" where
  "words_of pf = (if ends_with (lowercase (fst pf)) ''.txt''
                  then (case bytes (snd pf) of Some content \<Rightarrow> counted_words content | None \<Rightarrow> [])
                  else [])"

subsection \<open>Example trees\<close>

text \<open>
  The tree of the end-to-end scenario: \<open>a.txt\<close> and the empty directory \<open>empty\<close>; no
  file is an image.
\<close>

definition a_txt :: regular_file where
  "a_txt = \<lparr>st_size = Some 17, bytes = Some ''hello hello world'', identify = Ran None 256\<rparr>"

definition scenario_tree :: fsnode where
  "scenario_tree =
     Dir [(''.'', Dir []), (''..'', Dir []),
          (''a.txt'', RegFile a_txt),
          (''empty'', Dir [(''.'', Dir []), (''..'', Dir [])])]"

text \<open>
  A larger tree: a text file with an upper-case extension, two images of equal file
  size, an entry that is neither file nor directory, a file whose size lookup fails, an
  empty directory below a non-empty one, and a chain of empty directories.  The records
  after it are what the traversal and the analysis with \<open>n = 2\<close> produce for it.
\<close>

definition notes_txt :: regular_file where
  "notes_txt = \<lparr>st_size = Some 30, bytes = Some ''Alpha beta gamma; ALPHA delta.'',
            identify = Ran None 256\<rparr>"

definition photo :: regular_file where
  "photo = \<lparr>st_size = Some 2048, bytes = Some [], identify = Ran (Some ''640 480'') 0\<rparr>"

definition icon :: regular_file where
  "icon = \<lparr>st_size = Some 2048, bytes = Some [], identify = Ran (Some ''16 16'') 0\<rparr>"

definition unsized :: regular_file where
  "unsized = \<lparr>st_size = None, bytes = None, identify = Ran None 256\<rparr>"

definition example_tree :: fsnode where
  "example_tree =
     Dir [(''.'', Dir []), (''..'', Dir []),
          (''notes.TXT'', RegFile notes_txt),
          (''pics'', Dir [(''.'', Dir []), (''..'', Dir []),
                         (''icon.png'', RegFile icon),
                         (''photo.jpg'', RegFile photo),
                         (''raw'', Dir [])]),
          (''socket'', Other),
          (''lost'', RegFile unsized),
          (''void'', Dir [(''deep'', Dir [(''deeper'', Dir [])])])]"

definition example_stats :: DirStats where
  "example_stats =
     \<lparr>largest_file_path = ''pics/icon.png'', largest_file_size = 2048, n_files = 4,
      n_dirs = 6, all_files_size = 4126,
      largest_images =
        [\<lparr>path = ''pics/icon.png'', width = 16, height = 16\<rparr>,
         \<lparr>path = ''pics/photo.jpg'', width = 640, height = 480\<rparr>]\<rparr>"

definition example_tables :: globals where
  "example_tables =
     \<lparr>parent_map =
        [(''.'', []), (''./pics'', ''.''), (''./pics/raw'', ''./pics''),
         (''./void'', ''.''), (''./void/deep'', ''./void''),
         (''./void/deep/deeper'', ''./void/deep'')],
      n_files_map =
        [(''.'', 4), (''./pics'', 2), (''./pics/raw'', 0),
         (''./void'', 0), (''./void/deep'', 0), (''./void/deep/deeper'', 0)],
      most_common_words_map = [(''alpha'', 2), (''gamma'', 1), (''delta'', 1)]\<rparr>"

definition example_result :: Results where
  "example_result =
     \<lparr>Results.largest_file_path = ''pics/icon.png'', largest_file_size = 2048,
      n_files = 4, n_dirs = 6, all_files_size = 4126,
      most_common_words = [(''alpha'', 2), (''delta'', 1)],
      largest_images =
        [\<lparr>path = ''pics/photo.jpg'', width = 640, height = 480\<rparr>,
         \<lparr>path = ''pics/icon.png'', width = 16, height = 16\<rparr>],
      vacant_dirs = [''pics/raw'', ''void'']\<rparr>"

definition example_final_tables :: globals where
  "example_final_tables =
     example_tables\<lparr>n_files_map := n_files_map example_tables @ [([], 1)]\<rparr>"

text \<open>A tree whose only file has no size, and the result of its analysis.\<close>

definition unsized_tree :: fsnode where
  "unsized_tree = Dir [(''lost'', RegFile unsized), (''void'', Dir [])]"

definition unsized_result :: Results where
  "unsized_result =
     \<lparr>Results.largest_file_path = [], largest_file_size = - 1,
      n_files = 1, n_dirs = 2, all_files_size = 0,
      most_common_words = [], largest_images = [], vacant_dirs = [''void'']\<rparr>"

definition unsized_final_tables :: globals where
  "unsized_final_tables =
     \<lparr>parent_map = [(''.'', []), (''./void'', ''.'')],
      n_files_map = [(''.'', 1), (''./void'', 0), ([], 1)],
      most_common_words_map = []\<rparr>"





subsection \<open>Ranking\<close>

text \<open>
  Descending count with ascending lexicographic tie-break on the word; descending pixel
  area (width times height) with ascending lexicographic tie-break on the path.
\<close>

definition word_rank_le :: "string \<times> int \<Rightarrow> string \<times> int \<Rightarrow> bool" where
  "word_rank_le a b = (snd a > snd b \<or> (snd a = snd b \<and> fst a \<le> fst b))"

definition pixel_area :: "ImageInfo \<Rightarrow> int" where
  "pixel_area info = width info * height info"

definition image_rank_le :: "ImageInfo \<Rightarrow> ImageInfo \<Rightarrow> bool" where
  "image_rank_le a b =
     (pixel_area a > pixel_area b \<or> (pixel_area a = pixel_area b \<and> path a \<le> path b))"

definition example_result_0 :: Results where
  "example_result_0 = example_result\<lparr>most_common_words := [], Results.largest_images := []\<rparr>"

definition example_result_5 :: Results where
  "example_result_5 =
     example_result\<lparr>most_common_words := [(''alpha'', 2), (''delta'', 1), (''gamma'', 1)]\<rparr>"

text \<open>The same tree with the two entries in the other order.\<close>

definition scenario_tree_swapped :: fsnode where
  "scenario_tree_swapped =
     Dir [(''.'', Dir []), (''..'', Dir []),
          (''empty'', Dir [(''.'', Dir []), (''..'', Dir [])]),
          (''a.txt'', RegFile a_txt)]"

text \<open>The result of the scenario for a given \<open>n\<close>, and the tables after the analysis.\<close>

definition scenario_result :: "int \<Rightarrow> Results" where
  "scenario_result n =
     \<lparr>Results.largest_file_path = ''a.txt'', largest_file_size = 17,
      n_files = 1, n_dirs = 2, all_files_size = 17,
      most_common_words = take (nat n) [(''hello'', 2), (''world'', 1)],
      largest_images = [],
      vacant_dirs = [''empty'']\<rparr>"

definition scenario_final_tables :: globals where
  "scenario_final_tables =
     \<lparr>parent_map = [(''.'', []), (''./empty'', ''.'')],
      n_files_map = [(''.'', 1), (''./empty'', 0), ([], 1)],
      most_common_words_map = [(''hello'', 2), (''world'', 1)]\<rparr>"

subsection \<open>Well-formed directories\<close>

text \<open>
  What every file system guarantees for the names \<open>readdir\<close> yields: the names in one
  directory are distinct, and no name contains the path separator.
\<close>

fun wf_names :: "fsnode \<Rightarrow> bool" where
  "wf_names (Dir entries) =
     (distinct (map fst entries)
      \<and> (\<forall>(entry_name, node) \<in> set entries.
            PATH_SEPARATOR \<notin> set entry_name \<and> wf_names node))"
| "wf_names (RegFile f) = True"
| "wf_names UnreadableDir = True"
| "wf_names Other = True"

subsection \<open>The first largest file\<close>

text \<open>
  The files with a known size, each with the path the program reports for it, in
  traversal order.
\<close>

definition sized_files :: "(string \<times> regular_file) list \<Rightarrow> (string \<times> int) list" where
  "sized_files fs =
     List.map_filter (\<lambda>(p, f). map_option (\<lambda>s. (clean_path p, s)) (st_size f)) fs"

text \<open>
  One scan from left to right that starts with the initial values of \<open>DirStats\<close> and
  replaces the current largest file only by a strictly larger one.
\<close>

definition pick_larger :: "string \<times> int \<Rightarrow> string \<times> int \<Rightarrow> string \<times> int" where
  "pick_larger best candidate = (if snd candidate > snd best then candidate else best)"

definition first_largest :: "(string \<times> int) list \<Rightarrow> string \<times> int" where
  "first_largest xs = foldl pick_larger (NO_PATH, DEFAULT_LARGEST_SIZE) xs"

text \<open>Statistics that already hold a largest file of 2048 bytes, for the tie examples.\<close>

definition tie_stats :: DirStats where
  "tie_stats = DirStats_init\<lparr>largest_file_path := ''pics/icon.png'', largest_file_size := 2048\<rparr>"

definition tie_child_stats :: DirStats where
  "tie_child_stats = DirStats_init\<lparr>largest_file_path := ''raw/scan.tif'', largest_file_size := 2048\<rparr>"

subsection \<open>The directories of a tree\<close>

text \<open>
  One row per directory at and below a node that the traversal enters, in traversal
  order: the path of the directory, its recursive file count, and its ancestors, nearest
  first, each with its path and its recursive file count.
\<close>

fun dir_rows ::
  "(string \<times> nat) list \<Rightarrow> string \<Rightarrow> fsnode \<Rightarrow> (string \<times> nat \<times> (string \<times> nat) list) list" where
  "dir_rows ancestors p (Dir entries) =
     (p, file_count (Dir entries), ancestors) #
     concat (map (\<lambda>(entry_name, node).
                    if skipped entry_name then []
                    else dir_rows ((p, file_count (Dir entries)) # ancestors)
                           (child_path p entry_name) node)
               entries)"
| "dir_rows ancestors p (RegFile f) = []"
| "dir_rows ancestors p UnreadableDir = []"
| "dir_rows ancestors p Other = []"

text \<open>The rows of the subdirectories among the entries of the directory \<open>p\<close>.\<close>

definition child_rows ::
  "(string \<times> nat) list \<Rightarrow> string \<Rightarrow> (string \<times> fsnode) list
     \<Rightarrow> (string \<times> nat \<times> (string \<times> nat) list) list" where
  "child_rows ancestors p entries =
     concat (map (\<lambda>(entry_name, node).
                    if skipped entry_name then []
                    else dir_rows ancestors (child_path p entry_name) node)
               entries)"

text \<open>
  The path and the recursive file count of the parent of a directory with the given
  ancestors.  The root has no ancestor: its parent is the empty path, which counts as
  holding one file.
\<close>

definition parent_path :: "(string \<times> nat) list \<Rightarrow> string" where
  "parent_path ancestors = (case ancestors of [] \<Rightarrow> NO_PATH | (a, c) # _ \<Rightarrow> a)"

definition parent_count :: "(string \<times> nat) list \<Rightarrow> nat" where
  "parent_count ancestors = (case ancestors of [] \<Rightarrow> 1 | (a, c) # _ \<Rightarrow> c)"

text \<open>
  A directory is top-level vacant when its recursive file count is zero and that of its
  parent is not.
\<close>

definition top_level_vacant :: "string \<times> nat \<times> (string \<times> nat) list \<Rightarrow> bool" where
  "top_level_vacant row =
     (case row of (p, c, ancestors) \<Rightarrow> c = 0 \<and> parent_count ancestors \<noteq> 0)"

text \<open>What the rows say about the two tables: the count and the parent of each path.\<close>

definition row_counts ::
  "(string \<times> nat \<times> (string \<times> nat) list) list \<Rightarrow> (string \<times> int) list" where
  "row_counts rows = map (\<lambda>(p, c, ancestors). (p, int c)) rows"

definition row_parents ::
  "(string \<times> nat \<times> (string \<times> nat) list) list \<Rightarrow> (string \<times> string) list" where
  "row_parents rows = map (\<lambda>(p, c, ancestors). (p, parent_path ancestors)) rows"



section \<open>Properties\<close>

subsection \<open>Machine integers\<close>

lemma to_int_id: "INT_MIN \<le> x \<Longrightarrow> x \<le> INT_MAX \<Longrightarrow> to_int x = x"
  by (simp add: to_int_def INT_MIN_def INT_MAX_def)

lemma to_int_add_left: "to_int (to_int a + b) = to_int (a + b)"
  by (simp add: to_int_def algebra_simps mod_simps)

lemma to_int_add_right: "to_int (a + to_int b) = to_int (a + b)"
  by (simp add: to_int_def algebra_simps mod_simps)

lemma to_long_id: "LONG_MIN \<le> x \<Longrightarrow> x \<le> LONG_MAX \<Longrightarrow> to_long x = x"
  by (simp add: to_long_def LONG_MIN_def LONG_MAX_def)




lemmas machine_eval = to_int_def to_long_def INT_MIN_def LONG_MIN_def

text \<open>Evaluation at literals in the range of the type.\<close>

lemma to_int_literal:
  "to_int 0 = 0" "to_int 1 = 1"
  "numeral k \<le> (2147483647::int) \<Longrightarrow> to_int (numeral k) = numeral k"
  using to_int_id [of 0] to_int_id [of 1] to_int_id [of "numeral k"]
  by (simp_all add: INT_MIN_def INT_MAX_def)

lemma to_long_literal:
  "to_long 0 = 0" "to_long 1 = 1"
  "numeral k \<le> (9223372036854775807::int) \<Longrightarrow> to_long (numeral k) = numeral k"
  using to_long_id [of 0] to_long_id [of 1] to_long_id [of "numeral k"]
  by (simp_all add: LONG_MIN_def LONG_MAX_def)

subsection \<open>Tables\<close>

lemma at_add_at: "at (add_at k n m) k' = (if k' = k then to_int (at m k + n) else at m k')"
  by (simp add: at_def add_at_def update_conv')

text \<open>
  Incrementing once per element of a list: a key that does not occur keeps its count, a
  key that occurs gets its count plus the number of occurrences, as an \<open>int\<close>.
\<close>

lemma at_foldl_add_at:
  "at (foldl (\<lambda>m w. add_at w 1 m) m ws) w =
     (if w \<in> set ws then to_int (at m w + int (count_list ws w)) else at m w)"
proof (induction ws arbitrary: m)
  case Nil
  then show ?case by simp
next
  case (Cons x ws)
  show ?case
  proof (cases "w = x")
    case False
    with Cons.IH [of "add_at x 1 m"] show ?thesis by (simp add: at_add_at)
  next
    case True
    show ?thesis
    proof (cases "w \<in> set ws")
      case False
      with True Cons.IH [of "add_at x 1 m"] show ?thesis
        by (simp add: at_add_at count_list_0_iff)
    next
      case in_rest: True
      with True Cons.IH [of "add_at x 1 m"] show ?thesis
        by (simp add: at_add_at to_int_add_left to_int_add_right algebra_simps)
    qed
  qed
qed

lemma at_foldl_add_at_exact:
  assumes "INT_MIN \<le> at m w" "at m w + int (count_list ws w) \<le> INT_MAX"
  shows "at (foldl (\<lambda>m w. add_at w 1 m) m ws) w = at m w + int (count_list ws w)"
proof (cases "w \<in> set ws")
  case True
  with assms show ?thesis by (simp add: at_foldl_add_at to_int_id)
next
  case False
  then show ?thesis by (simp add: at_foldl_add_at count_list_0_iff)
qed

subsection \<open>Every successful traversal is a walk\<close>

lemma get_dir_stats_walk:
  "get_dir_stats g p par node = Inr (st, g') \<Longrightarrow> walk g p par node st g'"
  "readdir_loop g p st0 es = Inr (st, g') \<Longrightarrow> walk_entries g p st0 es st g'"
proof (induction g p par node and g p st0 es arbitrary: st g' and st g'
    rule: get_dir_stats_readdir_loop.induct)
  case (1 g dir_path parent_dir_path entries)
  then show ?case by (simp add: walk_Dir)
next
  case (5 g dir_path dir_stats)
  then show ?case by (simp add: walk_Nil)
next
  case (6 g dir_path dir_stats entry_name node rest)
  show ?case
  proof (cases "skipped entry_name")
    case True
    with "6.prems" have "readdir_loop g dir_path dir_stats rest = Inr (st, g')"
      by (simp add: skipped_def)
    with "6.IH"(1) True show ?thesis
      by (simp add: skipped_def walk_skip)
  next
    case False
    then have ns: "\<not> (entry_name = CURRENT_DIRECTORY \<or> entry_name = PREVIOUS_DIRECTORY)"
      by (simp add: skipped_def)
    let ?x = "dir_path @ [PATH_SEPARATOR] @ entry_name"
    show ?thesis
    proof (cases node)
      case (RegFile f)
      with "6.prems" ns obtain st1 g1 where
        v: "visit_file g dir_path ?x f dir_stats = Inr (st1, g1)" and
        r: "readdir_loop g1 dir_path st1 rest = Inr (st, g')"
        by (auto simp: Let_def split: sum.splits)
      from "6.IH"(2) [OF ns refl RegFile v refl r] v False RegFile show ?thesis
        by (simp add: walk_File child_path_def)
    next
      case (Dir es)
      with "6.prems" ns obtain sub g1 st2 g2 where
        d: "get_dir_stats g ?x dir_path node = Inr (sub, g1)" and
        m: "merge_subdir g1 dir_path sub dir_stats = (st2, g2)" and
        r: "readdir_loop g2 dir_path st2 rest = Inr (st, g')"
        by (auto simp: Let_def split: sum.splits prod.splits)
      from "6.IH"(3) [OF ns refl Dir d] have w: "walk g ?x dir_path node sub g1" .
      from "6.IH"(4) [OF ns refl Dir d refl m [symmetric] r]
      have "walk_entries g2 dir_path st2 rest st g'" .
      with w m False Dir show ?thesis
        by (auto simp: child_path_def intro: walk_Subdir)
    next
      case UnreadableDir
      with "6.prems" ns show ?thesis by (simp add: Let_def)
    next
      case Other
      with "6.prems" ns have "readdir_loop g dir_path dir_stats rest = Inr (st, g')"
        by (simp add: Let_def)
      from "6.IH"(7) [OF ns refl Other this] False Other show ?thesis
        by (simp add: walk_Other)
    qed
  qed
qed simp_all

subsection \<open>The word counter\<close>

lemma isalpha_tolower: "isalpha (tolower c) = isalpha c"
  by (auto simp: isalpha_def tolower_def upper_letters_def lower_letters_def)

lemma alpha_runs_prefix:
  assumes "\<forall>c\<in>set pre. isalpha c" "pre \<noteq> []"
  shows "alpha_runs (pre @ rest) =
           (pre @ takeWhile isalpha rest) # alpha_runs (dropWhile isalpha rest)"
proof (cases pre)
  case Nil
  with assms show ?thesis by simp
next
  case (Cons p ps)
  with assms have "isalpha p" "\<forall>c\<in>set ps. isalpha c" by auto
  then show ?thesis using Cons
    by (simp add: takeWhile_append2 dropWhile_append2)
qed

lemma alpha_runs_stop:
  assumes "\<forall>c\<in>set pre. isalpha c" "\<not> isalpha c"
  shows "alpha_runs (pre @ c # cs) = (if pre = [] then [] else [pre]) @ alpha_runs cs"
proof (cases "pre = []")
  case True
  with assms show ?thesis by simp
next
  case False
  with assms show ?thesis by (simp add: alpha_runs_prefix)
qed

lemma alpha_runs_all:
  assumes "\<forall>c\<in>set pre. isalpha c"
  shows "alpha_runs pre = (if pre = [] then [] else [pre])"
proof (cases "pre = []")
  case True
  then show ?thesis by simp
next
  case False
  with assms alpha_runs_prefix [of pre "[]"] show ?thesis by simp
qed

text \<open>
  The loop invariant: with the letters \<open>pre\<close> of the current run in the buffer, the
  loop and the final flush add the counted words of \<open>pre\<close> followed by the unread text.
\<close>

lemma count_words_loop_runs:
  "\<forall>c\<in>set pre. isalpha c \<Longrightarrow>
   flush_word (count_words_loop m (lowercase pre) cs) =
     foldl (\<lambda>m w. add_at w 1 m) m (counted_words (pre @ cs))"
proof (induction cs arbitrary: m pre)
  case Nil
  then show ?case
    by (simp add: flush_word_def counted_words_def alpha_runs_all lowercase_def MIN_WORD_SIZE_def)
next
  case (Cons c cs)
  show ?case
  proof (cases "isalpha c")
    case True
    with Cons.prems have "\<forall>x\<in>set (pre @ [c]). isalpha x" by simp
    from Cons.IH [OF this, of m] True show ?thesis
      by (simp add: isalpha_tolower lowercase_def)
  next
    case False
    have "\<forall>x\<in>set ([]::string). isalpha x" by simp
    from Cons.IH [OF this] False Cons.prems show ?thesis
      by (simp add: isalpha_tolower lowercase_def counted_words_def alpha_runs_stop
          flush_word_def MIN_WORD_SIZE_def)
  qed
qed

lemma count_words_in_file_table:
  "count_words_in_file g file_path (Some content) =
     Inr (g\<lparr>most_common_words_map :=
              foldl (\<lambda>m w. add_at w 1 m) (most_common_words_map g) (counted_words content)\<rparr>)"
proof -
  obtain m next_word where
    l: "count_words_loop (most_common_words_map g) [] content = (m, next_word)"
    by (cases "count_words_loop (most_common_words_map g) [] content")
  from count_words_loop_runs [of "[]" "most_common_words_map g" content] l
  have "(if length next_word \<ge> MIN_WORD_SIZE then add_at next_word 1 m else m) =
          foldl (\<lambda>m w. add_at w 1 m) (most_common_words_map g) (counted_words content)"
    by (simp add: flush_word_def lowercase_def)
  with l show ?thesis
    by (simp add: count_words_in_file_def)
qed

text \<open>
  Claim C5.  Given a file that opens, the word counter increments the table once for
  each maximal run of alphabetic characters of at least 5 characters, lower-cased, in
  the order of the text and with nothing else changed: a run ends at a non-alphabetic
  character or at the end of the file, so a trailing run is counted too.  An increment
  is the \<open>++\<close> of an \<open>int\<close>.  Hence the count of a word that does not occur among these
  runs is unchanged, and the count of every word grows by the number of its occurrences
  among them as long as the grown count is at most \<open>INT_MAX\<close>; beyond that it is the sum
  reduced to an \<open>int\<close>.
\<close>

theorem count_words_in_file_counts_runs:
  "count_words_in_file g file_path (Some content) =
     Inr (g\<lparr>most_common_words_map :=
              foldl (\<lambda>m w. add_at w 1 m) (most_common_words_map g) (counted_words content)\<rparr>)
   \<and> (\<forall>g' w. count_words_in_file g file_path (Some content) = Inr g' \<longrightarrow>
         (INT_MIN \<le> at (most_common_words_map g) w
          \<and> at (most_common_words_map g) w + int (count_list (counted_words content) w)
                \<le> INT_MAX \<longrightarrow>
            at (most_common_words_map g') w =
              at (most_common_words_map g) w + int (count_list (counted_words content) w))
         \<and> at (most_common_words_map g') w =
             (if w \<in> set (counted_words content)
              then to_int (at (most_common_words_map g) w
                             + int (count_list (counted_words content) w))
              else at (most_common_words_map g) w))
   \<and> counted_words content =
       filter (\<lambda>w. length w \<ge> 5) (map lowercase (alpha_runs content))"
proof -
  have a: "at (most_common_words_map g') w =
              at (most_common_words_map g) w + int (count_list (counted_words content) w)"
    if "count_words_in_file g file_path (Some content) = Inr g'"
      and "INT_MIN \<le> at (most_common_words_map g) w"
      and "at (most_common_words_map g) w + int (count_list (counted_words content) w)
             \<le> INT_MAX" for g' w
    using that by (auto simp: count_words_in_file_table at_foldl_add_at_exact)
  have b: "at (most_common_words_map g') w =
             (if w \<in> set (counted_words content)
              then to_int (at (most_common_words_map g) w
                             + int (count_list (counted_words content) w))
              else at (most_common_words_map g) w)"
    if "count_words_in_file g file_path (Some content) = Inr g'" for g' w
    using that by (auto simp: count_words_in_file_table at_foldl_add_at)
  have c: "counted_words content =
       filter (\<lambda>w. length w \<ge> 5) (map lowercase (alpha_runs content))"
    by (simp add: counted_words_def MIN_WORD_SIZE_def)
  from a b c count_words_in_file_table [of g file_path content] show ?thesis
    by blast
qed

theorem count_words_in_file_counts_runs_witness:
  "count_words_in_file globals_init ''a.txt'' (Some ''Hello, hello WORLD! abcd e fghij'') =
     Inr (globals_init\<lparr>most_common_words_map :=
            [(''hello'', 2), (''world'', 1), (''fghij'', 1)]\<rparr>)
   \<and> counted_words ''Hello, hello WORLD! abcd e fghij'' =
        [''hello'', ''hello'', ''world'', ''fghij'']
   \<and> INT_MIN \<le> at (most_common_words_map globals_init) ''hello''
   \<and> at (most_common_words_map globals_init) ''hello''
         + int (count_list (counted_words ''Hello, hello WORLD! abcd e fghij'') ''hello'')
       \<le> INT_MAX
   \<and> at [(''hello'', 2), (''world'', 1), (''fghij'', 1)] ''hello'' = 2
   \<and> at [(''hello'', 2), (''world'', 1), (''fghij'', 1)] ''abcd'' = 0"
proof -
  let ?text = "''Hello, hello WORLD! abcd e fghij''"
  let ?table = "[(''hello'', 2::int), (''world'', 1), (''fghij'', 1)]"
  have w: "counted_words ?text = [''hello'', ''hello'', ''world'', ''fghij'']"
    by code_simp
  have t: "add_at ''fghij'' 1 (add_at ''world'' 1 (add_at ''hello'' 1 (add_at ''hello'' 1 []))) =
             ?table"
    by code_simp
  note c = count_words_in_file_counts_runs [of globals_init "''a.txt''" ?text]
  from c have "count_words_in_file globals_init ''a.txt'' (Some ?text) =
     Inr (globals_init\<lparr>most_common_words_map :=
            foldl (\<lambda>m w. add_at w 1 m) (most_common_words_map globals_init)
              (counted_words ?text)\<rparr>)"
    by blast
  then have r: "count_words_in_file globals_init ''a.txt'' (Some ?text) =
     Inr (globals_init\<lparr>most_common_words_map := ?table\<rparr>)"
    by (simp add: w t globals_init_def)
  have h: "INT_MIN \<le> at (most_common_words_map globals_init) ''hello''"
    "at (most_common_words_map globals_init) ''hello''
       + int (count_list (counted_words ?text) ''hello'') \<le> INT_MAX"
    by (simp_all add: w globals_init_def at_def INT_MIN_def INT_MAX_def)
  from c r h
  have "at (most_common_words_map (globals_init\<lparr>most_common_words_map := ?table\<rparr>)) ''hello'' =
          at (most_common_words_map globals_init) ''hello''
            + int (count_list (counted_words ?text) ''hello'')"
    by blast
  then have a: "at ?table ''hello'' = 2"
    by (simp add: w globals_init_def at_def)
  from c r
  have "at (most_common_words_map (globals_init\<lparr>most_common_words_map := ?table\<rparr>)) ''abcd'' =
          (if ''abcd'' \<in> set (counted_words ?text)
           then to_int (at (most_common_words_map globals_init) ''abcd''
                          + int (count_list (counted_words ?text) ''abcd''))
           else at (most_common_words_map globals_init) ''abcd'')"
    by blast
  then have b: "at ?table ''abcd'' = 0"
    by (simp add: w globals_init_def at_def)
  from r w h a b show ?thesis by blast
qed

text \<open>
  At the upper end of \<open>int\<close>: a word counted \<open>INT_MAX\<close> times and read once more is
  reported with the count \<open>INT_MIN\<close>.
\<close>

lemma count_words_in_file_at_INT_MAX:
  "count_words_in_file (globals_init\<lparr>most_common_words_map := [(''hello'', 2147483647)]\<rparr>)
     ''a.txt'' (Some ''hello'') =
   Inr (globals_init\<lparr>most_common_words_map := [(''hello'', - 2147483648)]\<rparr>)"
  by code_simp

subsection \<open>The image prober\<close>

lemma get_image_info_Ran:
  "get_image_info p (Ran line s) =
     (let wh = (case line of None \<Rightarrow> (0, 0) | Some buffer \<Rightarrow> extract_width_height buffer)
      in if s = 0 \<and> fst wh > 0 \<and> snd wh > 0
         then Inr (Some \<lparr>path = clean_path p, width = fst wh, height = snd wh\<rparr>)
         else Inr None)"
  by (simp add: get_image_info_def SYSCALL_SUCCESS_def Let_def split: prod.splits option.splits)

lemma extract_failed:
  "\<not> fst (snd (extract_long buffer)) \<Longrightarrow> snd (extract_width_height buffer) = 0"
  by (cases "extract_long buffer") (auto simp: extract_width_height_def)

lemma visit_file_no_image:
  assumes "get_image_info p (identify f) = Inr None"
  shows "visit_file g d p f st = Inr (st', g') \<Longrightarrow> largest_images st' = largest_images st"
    and "visit_file g d p f st = Inl e \<Longrightarrow> ends_with (lowercase p) ''.txt'' \<and> bytes f = None"
  using assms
  by (auto simp: visit_file_def Let_def count_words_in_file_def
      split: sum.splits option.splits if_splits prod.splits)

text \<open>
  Claim C2, as the code has it.  Once \<open>popen\<close> has returned a stream, the prober returns
  "no image" and never an error when there is no output, when the output does not start
  with a number, when a dimension is not positive, and when the exit status is not 0
  (which is also what the shell reports when it cannot start \<open>identify\<close>).  The file is
  then visited like any other: the image list is unchanged, and the visit can only end
  the program through \<open>open_file\<close> on a \<open>.txt\<close> file.  When \<open>popen\<close> itself fails,
  \<open>print_error\<close> ends the program.
\<close>

theorem get_image_info_no_image:
  "get_image_info p (Ran None s) = Inr None
   \<and> (\<not> fst (snd (extract_long buffer)) \<longrightarrow> get_image_info p (Ran (Some buffer) s) = Inr None)
   \<and> (fst (extract_width_height buffer) \<le> 0 \<or> snd (extract_width_height buffer) \<le> 0
        \<longrightarrow> get_image_info p (Ran (Some buffer) s) = Inr None)
   \<and> (s \<noteq> 0 \<longrightarrow> get_image_info p (Ran line s) = Inr None)
   \<and> (\<forall>e. get_image_info p (Ran line s) \<noteq> Inl e)
   \<and> get_image_info p PopenNull =
        Inl (ProgramExit (''could not call identify via popen on %s'' @ p))
   \<and> (get_image_info p (identify f) = Inr None \<longrightarrow>
        (\<forall>st' g'. visit_file g d p f st = Inr (st', g') \<longrightarrow>
                   largest_images st' = largest_images st)
        \<and> (\<forall>e. visit_file g d p f st = Inl e \<longrightarrow>
                   ends_with (lowercase p) ''.txt'' \<and> bytes f = None))"
proof -
  have a: "get_image_info p (Ran None s) = Inr None"
    by (simp add: get_image_info_Ran)
  have b: "\<not> fst (snd (extract_long buffer)) \<longrightarrow>
             get_image_info p (Ran (Some buffer) s) = Inr None"
    by (simp add: get_image_info_Ran extract_failed)
  have c: "fst (extract_width_height buffer) \<le> 0 \<or> snd (extract_width_height buffer) \<le> 0
        \<longrightarrow> get_image_info p (Ran (Some buffer) s) = Inr None"
    by (auto simp: get_image_info_Ran)
  have d: "s \<noteq> 0 \<longrightarrow> get_image_info p (Ran line s) = Inr None"
    by (simp add: get_image_info_Ran)
  have e: "\<forall>e. get_image_info p (Ran line s) \<noteq> Inl e"
    by (simp add: get_image_info_Ran Let_def)
  have f: "get_image_info p PopenNull =
        Inl (ProgramExit (''could not call identify via popen on %s'' @ p))"
    by (simp add: get_image_info_def)
  from a b c d e f visit_file_no_image [of p f g d st] show ?thesis
    by blast
qed

theorem get_image_info_no_image_witness:
  "get_image_info ''./a.bin'' (Ran None 256) = Inr None
   \<and> \<not> fst (snd (extract_long ''identify: no decode delegate''))
   \<and> get_image_info ''./a.bin'' (Ran (Some ''identify: no decode delegate'') 0) = Inr None
   \<and> snd (extract_width_height ''0 0'') \<le> 0
   \<and> get_image_info ''./a.bin'' (Ran (Some ''0 0'') 0) = Inr None
   \<and> get_image_info ''./a.bin'' (Ran (Some ''640 480'') 256) = Inr None
   \<and> get_image_info ''./a.bin'' (identify not_an_image) = Inr None
   \<and> visit_file globals_init ''.'' ''./a.bin'' not_an_image DirStats_init =
       Inr (DirStats_init\<lparr>largest_file_path := ''a.bin'', largest_file_size := 4,
                          n_files := 1, all_files_size := 4\<rparr>,
            globals_init\<lparr>n_files_map := [(''.'', 1)]\<rparr>)"
proof -
  have p1: "\<not> fst (snd (extract_long ''identify: no decode delegate''))"
    by code_simp
  have p2: "snd (extract_width_height ''0 0'') \<le> 0"
    by code_simp
  have p3: "(256::int) \<noteq> 0" by simp
  have p4: "visit_file globals_init ''.'' ''./a.bin'' not_an_image DirStats_init =
       Inr (DirStats_init\<lparr>largest_file_path := ''a.bin'', largest_file_size := 4,
                          n_files := 1, all_files_size := 4\<rparr>,
            globals_init\<lparr>n_files_map := [(''.'', 1)]\<rparr>)"
    by code_simp
  note t = get_image_info_no_image
  from t [of "''./a.bin''" 256 "''identify: no decode delegate''" None not_an_image
          globals_init "''.''" DirStats_init]
  have q1: "get_image_info ''./a.bin'' (Ran None 256) = Inr None" by blast
  from t [of "''./a.bin''" 0 "''identify: no decode delegate''" None not_an_image
          globals_init "''.''" DirStats_init] p1
  have q2: "get_image_info ''./a.bin'' (Ran (Some ''identify: no decode delegate'') 0) = Inr None"
    by blast
  from t [of "''./a.bin''" 0 "''0 0''" None not_an_image globals_init "''.''" DirStats_init] p2
  have q3: "get_image_info ''./a.bin'' (Ran (Some ''0 0'') 0) = Inr None" by blast
  from t [of "''./a.bin''" 256 "''0 0''" "Some ''640 480''" not_an_image
          globals_init "''.''" DirStats_init] p3
  have q4: "get_image_info ''./a.bin'' (Ran (Some ''640 480'') 256) = Inr None" by blast
  have q5: "get_image_info ''./a.bin'' (identify not_an_image) = Inr None"
    using q1 by (simp add: not_an_image_def)
  from p1 p2 p4 q1 q2 q3 q4 q5 show ?thesis by blast
qed

text \<open>
  Claim C2 as stated fails for the first of its cases: a null pointer from \<open>popen\<close> is
  not turned into "no image", and the traversal does not continue.
\<close>

theorem get_image_info_popen_counterexample:
  "get_image_info ''./a.png'' PopenNull \<noteq> Inr None
   \<and> get_dir_stats globals_init ''.'' [] (Dir [(''a.png'', RegFile popen_fails)]) =
       Inl (ProgramExit ''could not call identify via popen on %s./a.png'')"
  by code_simp

subsection \<open>One file, one subdirectory\<close>

lemma visit_file_stats:
  assumes "visit_file g d p f st = Inr (st', g')"
  shows "n_files st' = n_files st + 1"
    and "n_dirs st' = n_dirs st"
    and "all_files_size st' =
           (case st_size f of None \<Rightarrow> all_files_size st
            | Some s \<Rightarrow> to_long (all_files_size st + s))"
    and "largest_images st' =
           largest_images st @ (case image_of (p, f) of None \<Rightarrow> [] | Some i \<Rightarrow> [i])"
    and "largest_file_size st' =
           (case st_size f of None \<Rightarrow> largest_file_size st
            | Some s \<Rightarrow> if s > largest_file_size st then s else largest_file_size st)"
    and "largest_file_path st' =
           (case st_size f of None \<Rightarrow> largest_file_path st
            | Some s \<Rightarrow> if s > largest_file_size st then clean_path p else largest_file_path st)"
  using assms
  by (auto simp: visit_file_def Let_def image_of_def
      split: sum.splits option.splits if_splits)

lemma word_step:
  assumes "(if ends_with (lowercase p) ''.txt'' then count_words_in_file g p (bytes f)
            else Inr g) = Inr g2"
  shows "g2 = g\<lparr>most_common_words_map :=
                   foldl (\<lambda>m w. add_at w 1 m) (most_common_words_map g) (words_of (p, f))\<rparr>"
proof (cases "ends_with (lowercase p) ''.txt''")
  case False
  with assms show ?thesis by (simp add: words_of_def)
next
  case True
  show ?thesis
  proof (cases "bytes f")
    case None
    with assms True show ?thesis by (simp add: count_words_in_file_def)
  next
    case (Some content)
    with assms True show ?thesis by (simp add: count_words_in_file_table words_of_def)
  qed
qed

lemma visit_file_globals:
  assumes "visit_file g d p f st = Inr (st', g')"
  shows "parent_map g' = parent_map g"
    and "n_files_map g' = add_at d 1 (n_files_map g)"
    and "most_common_words_map g' =
           foldl (\<lambda>m w. add_at w 1 m) (most_common_words_map g) (words_of (p, f))"
proof -
  let ?g1 = "g\<lparr>n_files_map := add_at d 1 (n_files_map g)\<rparr>"
  from assms obtain g2 where
    w: "(if ends_with (lowercase p) ''.txt'' then count_words_in_file ?g1 p (bytes f)
         else Inr ?g1) = Inr g2" and g': "g' = g2"
    by (auto simp: visit_file_def Let_def split: sum.splits option.splits)
  from word_step [OF w] g'
  show "parent_map g' = parent_map g"
    and "n_files_map g' = add_at d 1 (n_files_map g)"
    and "most_common_words_map g' =
           foldl (\<lambda>m w. add_at w 1 m) (most_common_words_map g) (words_of (p, f))"
    by simp_all
qed

lemma merge_subdir_stats:
  assumes "merge_subdir g d sub st = (st', g')"
  shows "n_files st' = n_files st + n_files sub"
    and "n_dirs st' = n_dirs st + n_dirs sub"
    and "all_files_size st' = to_long (all_files_size st + all_files_size sub)"
    and "largest_images st' = largest_images st @ largest_images sub"
    and "largest_file_size st' =
           (if largest_file_size sub > largest_file_size st then largest_file_size sub
            else largest_file_size st)"
    and "largest_file_path st' =
           (if largest_file_size sub > largest_file_size st
            then clean_path (largest_file_path sub) else largest_file_path st)"
    and "parent_map g' = parent_map g"
    and "n_files_map g' = add_at d (n_files sub) (n_files_map g)"
    and "most_common_words_map g' = most_common_words_map g"
  using assms
  by (auto simp: merge_subdir_def Let_def split: if_splits)

subsection \<open>The reference functions, entry by entry\<close>

lemma files_of_Nil [simp]: "files_of p (Dir []) = []"
  by simp

lemma files_of_Cons [simp]:
  "files_of p (Dir ((name, node) # rest)) =
     (if skipped name then [] else files_of (child_path p name) node) @ files_of p (Dir rest)"
  by simp

lemma count_subdirs_Nil [simp]: "count_subdirs (Dir []) = 0"
  by simp

lemma count_subdirs_Cons [simp]:
  "count_subdirs (Dir ((name, node) # rest)) =
     (if \<not> skipped name \<and> is_dir node then 1 + count_subdirs node else 0)
     + count_subdirs (Dir rest)"
  by simp

lemma file_count_Nil [simp]: "file_count (Dir []) = 0"
  by simp

lemma file_count_Cons [simp]:
  "file_count (Dir ((name, node) # rest)) =
     (if skipped name then 0 else if is_file node then 1 else file_count node)
     + file_count (Dir rest)"
  by simp

declare files_of.simps(2) [simp del] count_subdirs.simps(1) [simp del]
  file_count.simps(1) [simp del]

lemma successful_sizes_Nil [simp]: "successful_sizes [] = []"
  by (simp add: successful_sizes_def List.map_filter_def)

lemma successful_sizes_Cons [simp]:
  "successful_sizes ((p, f) # xs) =
     (case st_size f of None \<Rightarrow> successful_sizes xs | Some s \<Rightarrow> s # successful_sizes xs)"
  by (simp add: successful_sizes_def List.map_filter_simps split: option.splits)

lemma successful_sizes_append [simp]:
  "successful_sizes (xs @ ys) = successful_sizes xs @ successful_sizes ys"
  by (simp add: successful_sizes_def List.map_filter_def)

lemma map_filter_append:
  "List.map_filter h (xs @ ys) = List.map_filter h xs @ List.map_filter h ys"
  by (simp add: List.map_filter_def)

subsection \<open>What a traversal returns\<close>

lemma walk_n_dirs:
  "walk g p par node st g' \<Longrightarrow> n_dirs st = 1 + int (count_subdirs node)"
  "walk_entries g p st0 es st g' \<Longrightarrow> n_dirs st = n_dirs st0 + int (count_subdirs (Dir es))"
proof (induction rule: walk_walk_entries.inducts)
  case (walk_Dir g p par es st g')
  then show ?case by (simp add: DirStats_init_def)
next
  case (walk_File name g p f st st1 g1 rest st' g')
  then show ?case by (simp add: visit_file_stats)
next
  case (walk_Subdir name g p es sub g1 st st2 g2 rest st' g')
  then show ?case by (simp add: merge_subdir_stats)
qed simp_all


lemma walk_n_files:
  "walk g p par node st g' \<Longrightarrow> n_files st = int (file_count node)"
  "walk_entries g p st0 es st g' \<Longrightarrow> n_files st = n_files st0 + int (file_count (Dir es))"
proof (induction rule: walk_walk_entries.inducts)
  case (walk_Dir g p par es st g')
  then show ?case by (simp add: DirStats_init_def)
next
  case (walk_File name g p f st st1 g1 rest st' g')
  then show ?case by (simp add: visit_file_stats)
next
  case (walk_Subdir name g p es sub g1 st st2 g2 rest st' g')
  then show ?case by (simp add: merge_subdir_stats)
qed simp_all

lemma walk_largest_images:
  "walk g p par node st g' \<Longrightarrow>
     largest_images st = List.map_filter image_of (files_of p node)"
  "walk_entries g p st0 es st g' \<Longrightarrow>
     largest_images st = largest_images st0 @ List.map_filter image_of (files_of p (Dir es))"
proof (induction rule: walk_walk_entries.inducts)
  case (walk_Dir g p par es st g')
  then show ?case by (simp add: DirStats_init_def)
next
  case (walk_File name g p f st st1 g1 rest st' g')
  then show ?case
    by (simp add: visit_file_stats List.map_filter_simps split: option.splits)
next
  case (walk_Subdir name g p es sub g1 st st2 g2 rest st' g')
  then show ?case by (simp add: merge_subdir_stats map_filter_append)
qed (simp_all add: List.map_filter_simps)

lemma walk_words:
  "walk g p par node st g' \<Longrightarrow>
     most_common_words_map g' =
       foldl (\<lambda>m w. add_at w 1 m) (most_common_words_map g)
         (concat (map words_of (files_of p node)))"
  "walk_entries g p st0 es st g' \<Longrightarrow>
     most_common_words_map g' =
       foldl (\<lambda>m w. add_at w 1 m) (most_common_words_map g)
         (concat (map words_of (files_of p (Dir es))))"
proof (induction rule: walk_walk_entries.inducts)
  case (walk_File name g p f st st1 g1 rest st' g')
  then show ?case by (simp add: visit_file_globals)
next
  case (walk_Subdir name g p es sub g1 st st2 g2 rest st' g')
  then show ?case by (simp add: merge_subdir_stats)
qed simp_all

lemma walk_no_sized_file:
  "walk g p par node st g' \<Longrightarrow> successful_sizes (files_of p node) = [] \<Longrightarrow>
     largest_file_size st = DEFAULT_LARGEST_SIZE \<and> largest_file_path st = NO_PATH"
  "walk_entries g p st0 es st g' \<Longrightarrow> successful_sizes (files_of p (Dir es)) = [] \<Longrightarrow>
     largest_file_size st0 = DEFAULT_LARGEST_SIZE \<Longrightarrow>
     largest_file_size st = largest_file_size st0 \<and> largest_file_path st = largest_file_path st0"
proof (induction rule: walk_walk_entries.inducts)
  case (walk_Dir g p par es st g')
  then show ?case by (simp add: DirStats_init_def)
next
  case (walk_File name g p f st st1 g1 rest st' g')
  from walk_File.prems walk_File.hyps(1) have n: "st_size f = None"
    and r: "successful_sizes (files_of p (Dir rest)) = []"
    by (auto split: option.splits)
  from visit_file_stats(5,6) [OF walk_File.hyps(2)] n
  have "largest_file_size st1 = largest_file_size st" "largest_file_path st1 = largest_file_path st"
    by simp_all
  with walk_File.IH [OF r] walk_File.prems(2) show ?case by simp
next
  case (walk_Subdir name g p es sub g1 st st2 g2 rest st' g')
  from walk_Subdir.prems walk_Subdir.hyps(1)
  have s: "successful_sizes (files_of (child_path p name) (Dir es)) = []"
    and r: "successful_sizes (files_of p (Dir rest)) = []"
    by simp_all
  from walk_Subdir.IH(1) [OF s] have "largest_file_size sub = DEFAULT_LARGEST_SIZE" by simp
  with merge_subdir_stats(5,6) [OF walk_Subdir.hyps(3)] walk_Subdir.prems(2)
  have "largest_file_size st2 = largest_file_size st" "largest_file_path st2 = largest_file_path st"
    by simp_all
  with walk_Subdir.IH(2) [OF r] walk_Subdir.prems(2) show ?case by simp
qed simp_all

subsection \<open>The result of a successful analysis\<close>

lemma resize_min_Inr:
  "resize_min n v = Inr r \<longleftrightarrow> 0 \<le> n \<and> r = take (nat n) v"
  by (auto simp: resize_min_def min_def)

lemma analyzeDir_Inr:
  assumes "analyzeDir g cwd n = Inr (res, g')"
  obtains st g1 where
    "get_dir_stats g CURRENT_DIRECTORY NO_PATH cwd = Inr (st, g1)"
    "0 \<le> n"
    "res = \<lparr>Results.largest_file_path = largest_file_path st,
            largest_file_size = largest_file_size st,
            n_files = n_files st,
            n_dirs = n_dirs st,
            all_files_size = all_files_size st,
            most_common_words =
              take (nat n) (std_sort WordFrequencyComparator (most_common_words_map g1)),
            largest_images = take (nat n) (std_sort ImageInfoComparator (largest_images st)),
            vacant_dirs = fst (get_top_level_vacant_dirs g1)\<rparr>"
    "g' = snd (get_top_level_vacant_dirs g1)"
proof -
  from assms obtain st g1 where
    d: "get_dir_stats g CURRENT_DIRECTORY NO_PATH cwd = Inr (st, g1)"
    by (auto simp: analyzeDir_def split: sum.splits)
  from assms d obtain ws where
    w: "resize_min n (std_sort WordFrequencyComparator (most_common_words_map g1)) = Inr ws"
    by (auto simp: analyzeDir_def split: sum.splits)
  from assms d w obtain ims where
    i: "resize_min n (std_sort ImageInfoComparator (largest_images st)) = Inr ims"
    by (auto simp: analyzeDir_def split: sum.splits)
  from assms d w i have
    "res = \<lparr>Results.largest_file_path = largest_file_path st,
            largest_file_size = largest_file_size st,
            n_files = n_files st,
            n_dirs = n_dirs st,
            all_files_size = all_files_size st,
            most_common_words = ws,
            largest_images = ims,
            vacant_dirs = fst (get_top_level_vacant_dirs g1)\<rparr>"
    and "g' = snd (get_top_level_vacant_dirs g1)"
    by (auto simp: analyzeDir_def split: prod.splits)
  with d w i that show thesis
    by (simp add: resize_min_Inr)
qed

subsection \<open>Directory count, total size, largest file\<close>

text \<open>
  Claim C8.  Every call of \<open>get_dir_stats\<close> that returns yields \<open>n_dirs\<close> equal to 1 plus
  the number of subdirectories transitively contained in its directory; for a directory
  with the given entries this is 1 plus the sum, over the subdirectories among the
  entries, of what the call on each of them returns.  \<open>Results.n_dirs\<close> is the value
  returned for the root.
\<close>

theorem n_dirs_counts_subdirectories:
  "(get_dir_stats g p par node = Inr (st, g') \<longrightarrow> n_dirs st = 1 + int (count_subdirs node))
   \<and> (get_dir_stats g p par (Dir entries) = Inr (st, g') \<longrightarrow>
        n_dirs st = 1 + (\<Sum>(entry_name, child)\<leftarrow>entries.
                           if \<not> skipped entry_name \<and> is_dir child
                           then 1 + int (count_subdirs child) else 0))
   \<and> (analyzeDir g cwd n = Inr (res, g'') \<longrightarrow>
        Results.n_dirs res = 1 + int (count_subdirs cwd))"
proof -
  have a: "n_dirs st = 1 + int (count_subdirs node)"
    if "get_dir_stats g p par node = Inr (st, g')" for g p par node st g'
    using get_dir_stats_walk(1) [OF that] by (rule walk_n_dirs(1))
  have s: "int (count_subdirs (Dir entries)) =
             (\<Sum>(entry_name, child)\<leftarrow>entries.
                 if \<not> skipped entry_name \<and> is_dir child
                 then 1 + int (count_subdirs child) else 0)"
    by (induction entries) auto
  have c: "Results.n_dirs res = 1 + int (count_subdirs cwd)"
    if "analyzeDir g cwd n = Inr (res, g'')"
    using that by (rule analyzeDir_Inr) (simp add: a)
  from a [of g p par node st g'] a [of g p par "Dir entries" st g'] s c show ?thesis
    by simp
qed

subsection \<open>The example tree, evaluated\<close>

lemmas walk_eval =
  visit_file_def merge_subdir_def Let_def count_words_in_file_table get_image_info_Ran
  ends_with_def lowercase_def tolower_def upper_letters_def lower_letters_def clean_path_def
  CURRENT_DIRECTORY_def PREVIOUS_DIRECTORY_def PATH_SEPARATOR_def NO_PATH_def
  DEFAULT_LARGEST_SIZE_def DirStats_init_def globals_init_def add_at_def at_def
  to_int_literal to_long_literal

lemmas example_files = notes_txt_def photo_def icon_def unsized_def

lemma example_words:
  "counted_words ''Alpha beta gamma; ALPHA delta.'' = [''alpha'', ''gamma'', ''alpha'', ''delta'']"
  "counted_words [] = []"
  by code_simp+

lemma example_dimensions:
  "extract_width_height ''640 480'' = (640, 480)"
  "extract_width_height ''16 16'' = (16, 16)"
  by code_simp+

lemma example_get_dir_stats:
  "get_dir_stats globals_init ''.'' [] example_tree = Inr (example_stats, example_tables)"
  by (simp add: example_tree_def example_stats_def example_tables_def example_files
      walk_eval example_words example_dimensions)

lemma example_sorted:
  "std_sort WordFrequencyComparator (most_common_words_map example_tables) =
     [(''alpha'', 2), (''delta'', 1), (''gamma'', 1)]"
  "std_sort ImageInfoComparator (largest_images example_stats) =
     [\<lparr>path = ''pics/photo.jpg'', width = 640, height = 480\<rparr>,
      \<lparr>path = ''pics/icon.png'', width = 16, height = 16\<rparr>]"
  "get_top_level_vacant_dirs example_tables = ([''pics/raw'', ''void''], example_final_tables)"
  by code_simp+

lemma example_analyzeDir:
  "analyzeDir globals_init example_tree 2 = Inr (example_result, example_final_tables)"
  unfolding analyzeDir_def
  by (simp add: example_get_dir_stats [unfolded CURRENT_DIRECTORY_def NO_PATH_def]
      CURRENT_DIRECTORY_def NO_PATH_def example_sorted resize_min_def)
    (simp add: example_result_def example_stats_def)

theorem n_dirs_counts_subdirectories_witness:
  "get_dir_stats globals_init ''.'' [] example_tree = Inr (example_stats, example_tables)
   \<and> analyzeDir globals_init example_tree 2 = Inr (example_result, example_final_tables)
   \<and> n_dirs example_stats = 6
   \<and> Results.n_dirs example_result = 6
   \<and> count_subdirs example_tree = 5"
proof -
  have c: "count_subdirs example_tree = 5" by code_simp
  note t = n_dirs_counts_subdirectories
      [where g = globals_init and p = "''.''" and par = "[]" and node = example_tree
         and st = example_stats and g' = example_tables and cwd = example_tree and n = 2
         and res = example_result and g'' = example_final_tables]
  from t example_get_dir_stats example_analyzeDir c
  have "Results.n_dirs example_result = 6" "n_dirs example_stats = 6" by simp_all
  then show ?thesis using example_get_dir_stats example_analyzeDir c by simp
qed







text \<open>
  Claim C10.  When no regular file of the tree has a successful size lookup (in
  particular when the tree has no regular file), the result carries the initial values
  of \<open>DirStats\<close>: the empty path and the size \<open>-1\<close>.
\<close>

theorem no_sized_file_keeps_sentinels:
  assumes "successful_sizes (files_of CURRENT_DIRECTORY cwd) = []"
    and "analyzeDir g cwd n = Inr (res, g')"
  shows "Results.largest_file_path res = [] \<and> Results.largest_file_size res = - 1"
  using assms(2)
proof (rule analyzeDir_Inr)
  fix st0 g0
  assume d: "get_dir_stats g CURRENT_DIRECTORY NO_PATH cwd = Inr (st0, g0)"
    and r: "res = \<lparr>Results.largest_file_path = largest_file_path st0,
            largest_file_size = largest_file_size st0,
            n_files = n_files st0,
            n_dirs = n_dirs st0,
            all_files_size = all_files_size st0,
            most_common_words =
              take (nat n) (std_sort WordFrequencyComparator (most_common_words_map g0)),
            largest_images = take (nat n) (std_sort ImageInfoComparator (largest_images st0)),
            vacant_dirs = fst (get_top_level_vacant_dirs g0)\<rparr>"
  from walk_no_sized_file(1) [OF get_dir_stats_walk(1) [OF d] assms(1)] r
  show ?thesis by (simp add: DEFAULT_LARGEST_SIZE_def NO_PATH_def)
qed

lemma unsized_analyzeDir:
  "analyzeDir globals_init unsized_tree 0 = Inr (unsized_result, unsized_final_tables)"
  by (simp add: analyzeDir_def unsized_tree_def unsized_def walk_eval resize_min_def
      unsized_result_def unsized_final_tables_def get_top_level_vacant_dirs_def parent_at_def
      std_sort_def)

theorem no_sized_file_keeps_sentinels_witness:
  "successful_sizes (files_of CURRENT_DIRECTORY unsized_tree) = []
   \<and> map fst (files_of CURRENT_DIRECTORY unsized_tree) = [''./lost'']
   \<and> analyzeDir globals_init unsized_tree 0 = Inr (unsized_result, unsized_final_tables)
   \<and> Results.largest_file_path unsized_result = []
   \<and> Results.largest_file_size unsized_result = - 1"
proof -
  have s: "successful_sizes (files_of CURRENT_DIRECTORY unsized_tree) = []" by code_simp
  have f: "map fst (files_of CURRENT_DIRECTORY unsized_tree) = [''./lost'']" by code_simp
  from no_sized_file_keeps_sentinels [OF s unsized_analyzeDir] s f unsized_analyzeDir
  show ?thesis by simp
qed

subsection \<open>Sorting\<close>

lemma mset_insort_comp: "mset (insort_comp cmp x xs) = add_mset x (mset xs)"
  by (induction xs) auto

lemma mset_std_sort: "mset (std_sort cmp xs) = mset xs"
  by (induction xs) (auto simp: std_sort_def mset_insort_comp)

lemma set_insort_comp: "set (insort_comp cmp x xs) = insert x (set xs)"
  using mset_insort_comp [of cmp x xs] by (metis set_mset_add_mset_insert set_mset_mset)

lemma length_std_sort: "length (std_sort cmp xs) = length xs"
  using mset_std_sort [of cmp xs] by (metis size_mset)

lemma sorted_insort_comp:
  assumes asym: "\<And>a b. cmp a b \<Longrightarrow> \<not> cmp b a"
    and trans: "\<And>a b c. \<not> cmp b a \<Longrightarrow> \<not> cmp c b \<Longrightarrow> \<not> cmp c a"
  shows "sorted_wrt (\<lambda>a b. \<not> cmp b a) xs \<Longrightarrow>
         sorted_wrt (\<lambda>a b. \<not> cmp b a) (insort_comp cmp x xs)"
proof (induction xs)
  case Nil
  then show ?case by simp
next
  case (Cons y ys)
  show ?case
  proof (cases "cmp y x")
    case True
    with Cons asym show ?thesis
      by (auto simp: set_insort_comp)
  next
    case False
    with Cons trans show ?thesis
      by auto
  qed
qed

lemma sorted_std_sort:
  assumes "\<And>a b. cmp a b \<Longrightarrow> \<not> cmp b a"
    and "\<And>a b c. \<not> cmp b a \<Longrightarrow> \<not> cmp c b \<Longrightarrow> \<not> cmp c a"
  shows "sorted_wrt (\<lambda>a b. \<not> cmp b a) (std_sort cmp xs)"
  by (induction xs) (simp_all add: std_sort_def sorted_insort_comp [OF assms])

lemma word_rank_le_iff: "word_rank_le a b \<longleftrightarrow> \<not> WordFrequencyComparator b a"
  by (auto simp: word_rank_le_def WordFrequencyComparator_def)

text \<open>
  The comparator of the images ranks by pixel area as long as the products are in the
  range of \<open>long\<close>.
\<close>

lemma image_rank_le_iff:
  assumes "LONG_MIN \<le> pixel_area a" "pixel_area a \<le> LONG_MAX"
    and "LONG_MIN \<le> pixel_area b" "pixel_area b \<le> LONG_MAX"
  shows "image_rank_le a b \<longleftrightarrow> \<not> ImageInfoComparator b a"
proof -
  from assms have "to_long (width a * height a) = pixel_area a"
    "to_long (width b * height b) = pixel_area b"
    by (simp_all add: pixel_area_def to_long_id)
  then show ?thesis
    by (auto simp: image_rank_le_def ImageInfoComparator_def Let_def)
qed

lemma set_std_sort: "set (std_sort cmp xs) = set xs"
  using mset_std_sort [of cmp xs] by (metis set_mset_mset)

lemma image_of_positive:
  "image_of pf = Some info \<Longrightarrow> 0 < width info \<and> 0 < height info"
  by (cases "identify (snd pf)")
    (auto simp: image_of_def get_image_info_def SYSCALL_SUCCESS_def Let_def
      split: prod.splits if_splits)

lemma image_of_area:
  assumes "info \<in> set (List.map_filter image_of fs)"
  shows "LONG_MIN \<le> pixel_area info"
proof -
  from assms obtain pf where "image_of pf = Some info"
    by (auto simp: List.map_filter_def)
  from image_of_positive [OF this] have "0 < pixel_area info"
    by (simp add: pixel_area_def)
  then show ?thesis by (simp add: LONG_MIN_def)
qed

lemma sorted_words: "sorted_wrt word_rank_le (std_sort WordFrequencyComparator xs)"
proof -
  have "sorted_wrt (\<lambda>a b. \<not> WordFrequencyComparator b a) (std_sort WordFrequencyComparator xs)"
    by (rule sorted_std_sort) (auto simp: WordFrequencyComparator_def split: if_splits)
  then show ?thesis by (simp add: word_rank_le_iff [abs_def])
qed

lemma sorted_images:
  assumes "\<forall>info\<in>set xs. LONG_MIN \<le> pixel_area info \<and> pixel_area info \<le> LONG_MAX"
  shows "sorted_wrt image_rank_le (std_sort ImageInfoComparator xs)"
proof -
  have "sorted_wrt (\<lambda>a b. \<not> ImageInfoComparator b a) (std_sort ImageInfoComparator xs)"
    by (rule sorted_std_sort) (auto simp: ImageInfoComparator_def Let_def split: if_splits)
  then show ?thesis
  proof (rule sorted_wrt_mono_rel [rotated])
    fix a b
    assume "a \<in> set (std_sort ImageInfoComparator xs)"
      and "b \<in> set (std_sort ImageInfoComparator xs)"
      and "\<not> ImageInfoComparator b a"
    with assms show "image_rank_le a b"
      by (simp add: set_std_sort image_rank_le_iff)
  qed
qed

lemma take_is_prefix_of_sorted:
  assumes "sorted_wrt R ys" "mset ys = M"
  shows "\<exists>rest. mset (take k ys @ rest) = M \<and> sorted_wrt R (take k ys @ rest)"
  using assms by (intro exI [of _ "drop k ys"]) simp

lemma get_top_level_vacant_dirs_words:
  "most_common_words_map (snd (get_top_level_vacant_dirs g)) = most_common_words_map g"
  by (simp add: get_top_level_vacant_dirs_def Let_def)

text \<open>
  Claim C7.  When \<open>analyzeDir(n)\<close> returns, \<open>n\<close> is not negative, and both lists are the
  first \<open>n\<close> elements of a ranked arrangement of everything there is: the reported
  words followed by some rest are the whole frequency table, ranked by descending count
  and then ascending word, and the list has \<open>min n\<close> (size of the table) elements; the
  same holds for the images of the tree, ranked by descending pixel area and then
  ascending path, provided the pixel area of every image of the tree is at most
  \<open>LONG_MAX\<close>, so that the product the comparator computes is the area.  So a list is
  never longer than \<open>n\<close>, is empty for \<open>n = 0\<close>, and is everything when \<open>n\<close> is at least
  the number of items.  The five scalar statistics and the vacant directories do not
  depend on \<open>n\<close>: any other successful call, for instance with 0, returns the same ones.
\<close>

theorem top_n_lists_ranked_and_truncated:
  assumes "analyzeDir g cwd n = Inr (res, g')"
  shows "0 \<le> n
    \<and> (\<exists>rest. mset (most_common_words res @ rest) = mset (most_common_words_map g')
               \<and> sorted_wrt word_rank_le (most_common_words res @ rest))
    \<and> length (most_common_words res) = min (nat n) (length (most_common_words_map g'))
    \<and> ((\<forall>info\<in>set (List.map_filter image_of (files_of CURRENT_DIRECTORY cwd)).
            pixel_area info \<le> LONG_MAX) \<longrightarrow>
        (\<exists>rest. mset (Results.largest_images res @ rest) =
                  mset (List.map_filter image_of (files_of CURRENT_DIRECTORY cwd))
               \<and> sorted_wrt image_rank_le (Results.largest_images res @ rest)))
    \<and> length (Results.largest_images res) =
          min (nat n) (length (List.map_filter image_of (files_of CURRENT_DIRECTORY cwd)))
    \<and> (n = 0 \<longrightarrow> most_common_words res = [] \<and> Results.largest_images res = [])
    \<and> (\<forall>m res2 g2. analyzeDir g cwd m = Inr (res2, g2) \<longrightarrow>
          Results.largest_file_path res2 = Results.largest_file_path res
          \<and> Results.largest_file_size res2 = Results.largest_file_size res
          \<and> Results.n_files res2 = Results.n_files res
          \<and> Results.n_dirs res2 = Results.n_dirs res
          \<and> Results.all_files_size res2 = Results.all_files_size res
          \<and> vacant_dirs res2 = vacant_dirs res)"
  using assms
proof (rule analyzeDir_Inr)
  fix st :: DirStats and g1 :: globals
  let ?ws = "std_sort WordFrequencyComparator (most_common_words_map g1)"
  let ?is = "std_sort ImageInfoComparator (largest_images st)"
  assume d: "get_dir_stats g CURRENT_DIRECTORY NO_PATH cwd = Inr (st, g1)"
    and n: "0 \<le> n"
    and r: "res = \<lparr>Results.largest_file_path = largest_file_path st,
            largest_file_size = largest_file_size st,
            n_files = n_files st,
            n_dirs = n_dirs st,
            all_files_size = all_files_size st,
            most_common_words = take (nat n) ?ws,
            largest_images = take (nat n) ?is,
            vacant_dirs = fst (get_top_level_vacant_dirs g1)\<rparr>"
    and g': "g' = snd (get_top_level_vacant_dirs g1)"
  have tab: "most_common_words_map g' = most_common_words_map g1"
    by (simp add: g' get_top_level_vacant_dirs_words)
  have ims: "largest_images st = List.map_filter image_of (files_of CURRENT_DIRECTORY cwd)"
    using d by (intro walk_largest_images(1) get_dir_stats_walk(1))
  have w1: "\<exists>rest. mset (most_common_words res @ rest) = mset (most_common_words_map g')
               \<and> sorted_wrt word_rank_le (most_common_words res @ rest)"
    unfolding tab using take_is_prefix_of_sorted [OF sorted_words mset_std_sort]
    by (simp add: r)
  have w2: "length (most_common_words res) = min (nat n) (length (most_common_words_map g'))"
    by (simp add: r tab length_std_sort min.commute)
  have i1: "\<exists>rest. mset (Results.largest_images res @ rest) =
                  mset (List.map_filter image_of (files_of CURRENT_DIRECTORY cwd))
               \<and> sorted_wrt image_rank_le (Results.largest_images res @ rest)"
    if "\<forall>info\<in>set (List.map_filter image_of (files_of CURRENT_DIRECTORY cwd)).
            pixel_area info \<le> LONG_MAX"
  proof -
    from that image_of_area
    have "\<forall>info\<in>set (largest_images st).
            LONG_MIN \<le> pixel_area info \<and> pixel_area info \<le> LONG_MAX"
      unfolding ims by blast
    from take_is_prefix_of_sorted [OF sorted_images [OF this] mset_std_sort, of "nat n"]
    show ?thesis by (simp add: r ims)
  qed
  have i2: "length (Results.largest_images res) =
          min (nat n) (length (List.map_filter image_of (files_of CURRENT_DIRECTORY cwd)))"
    by (simp add: r ims [symmetric] length_std_sort min.commute)
  have z: "n = 0 \<longrightarrow> most_common_words res = [] \<and> Results.largest_images res = []"
    by (simp add: r)
  have s: "Results.largest_file_path res2 = Results.largest_file_path res
          \<and> Results.largest_file_size res2 = Results.largest_file_size res
          \<and> Results.n_files res2 = Results.n_files res
          \<and> Results.n_dirs res2 = Results.n_dirs res
          \<and> Results.all_files_size res2 = Results.all_files_size res
          \<and> vacant_dirs res2 = vacant_dirs res"
    if "analyzeDir g cwd m = Inr (res2, g2)" for m res2 g2
    using that by (rule analyzeDir_Inr) (simp add: d r)
  from n w1 w2 i1 i2 z s show ?thesis by blast
qed

lemma example_analyzeDir_other:
  "analyzeDir globals_init example_tree 0 = Inr (example_result_0, example_final_tables)"
  "analyzeDir globals_init example_tree 5 = Inr (example_result_5, example_final_tables)"
  unfolding analyzeDir_def
  by (simp_all add: example_get_dir_stats [unfolded CURRENT_DIRECTORY_def NO_PATH_def]
      CURRENT_DIRECTORY_def NO_PATH_def example_sorted resize_min_def)
    (simp_all add: example_result_0_def example_result_5_def example_result_def
      example_stats_def)

lemma example_images:
  "List.map_filter image_of (files_of CURRENT_DIRECTORY example_tree) =
     [\<lparr>path = ''pics/icon.png'', width = 16, height = 16\<rparr>,
      \<lparr>path = ''pics/photo.jpg'', width = 640, height = 480\<rparr>]"
  by code_simp

theorem top_n_lists_ranked_and_truncated_witness:
  "analyzeDir globals_init example_tree 2 = Inr (example_result, example_final_tables)
   \<and> analyzeDir globals_init example_tree 0 = Inr (example_result_0, example_final_tables)
   \<and> analyzeDir globals_init example_tree 5 = Inr (example_result_5, example_final_tables)
   \<and> most_common_words_map example_final_tables = [(''alpha'', 2), (''gamma'', 1), (''delta'', 1)]
   \<and> most_common_words example_result = [(''alpha'', 2), (''delta'', 1)]
   \<and> most_common_words example_result_0 = []
   \<and> most_common_words example_result_5 = [(''alpha'', 2), (''delta'', 1), (''gamma'', 1)]
   \<and> length (most_common_words example_result) = min (nat 2) 3
   \<and> length (most_common_words example_result_5) = min (nat 5) 3
   \<and> List.map_filter image_of (files_of CURRENT_DIRECTORY example_tree) =
       [\<lparr>path = ''pics/icon.png'', width = 16, height = 16\<rparr>,
        \<lparr>path = ''pics/photo.jpg'', width = 640, height = 480\<rparr>]
   \<and> pixel_area \<lparr>path = ''pics/icon.png'', width = 16, height = 16\<rparr> \<le> LONG_MAX
   \<and> pixel_area \<lparr>path = ''pics/photo.jpg'', width = 640, height = 480\<rparr> \<le> LONG_MAX
   \<and> Results.largest_images example_result =
       [\<lparr>path = ''pics/photo.jpg'', width = 640, height = 480\<rparr>,
        \<lparr>path = ''pics/icon.png'', width = 16, height = 16\<rparr>]
   \<and> sorted_wrt image_rank_le (Results.largest_images example_result)
   \<and> Results.largest_images example_result_0 = []
   \<and> Results.n_files example_result_0 = Results.n_files example_result
   \<and> Results.all_files_size example_result_0 = 4126"
proof -
  note t2 = top_n_lists_ranked_and_truncated [OF example_analyzeDir]
  note t5 = top_n_lists_ranked_and_truncated [OF example_analyzeDir_other(2)]
  have l: "length (most_common_words_map example_final_tables) = 3"
    by (simp add: example_final_tables_def example_tables_def)
  from t2 l have a: "length (most_common_words example_result) = min (nat 2) 3" by simp
  from t5 l have b: "length (most_common_words example_result_5) = min (nat 5) 3" by simp
  from t2 example_analyzeDir_other(1)
  have c: "Results.n_files example_result_0 = Results.n_files example_result" by blast
  have p: "pixel_area \<lparr>path = ''pics/icon.png'', width = 16, height = 16\<rparr> \<le> LONG_MAX"
    "pixel_area \<lparr>path = ''pics/photo.jpg'', width = 640, height = 480\<rparr> \<le> LONG_MAX"
    by (simp_all add: pixel_area_def LONG_MAX_def)
  then have "\<forall>info\<in>set (List.map_filter image_of (files_of CURRENT_DIRECTORY example_tree)).
            pixel_area info \<le> LONG_MAX"
    by (simp add: example_images)
  with t2 obtain rest where
    "sorted_wrt image_rank_le (Results.largest_images example_result @ rest)"
    by blast
  then have d: "sorted_wrt image_rank_le (Results.largest_images example_result)"
    by (simp add: sorted_wrt_append)
  have e: "Results.largest_images example_result =
       [\<lparr>path = ''pics/photo.jpg'', width = 640, height = 480\<rparr>,
        \<lparr>path = ''pics/icon.png'', width = 16, height = 16\<rparr>]"
    by (simp add: example_result_def)
  have f: "most_common_words_map example_final_tables =
             [(''alpha'', 2), (''gamma'', 1), (''delta'', 1)]"
    "most_common_words example_result = [(''alpha'', 2), (''delta'', 1)]"
    "most_common_words example_result_0 = []"
    "most_common_words example_result_5 = [(''alpha'', 2), (''delta'', 1), (''gamma'', 1)]"
    "Results.largest_images example_result_0 = []"
    "Results.all_files_size example_result_0 = 4126"
    by (simp_all add: example_result_0_def example_result_5_def example_result_def
        example_final_tables_def example_tables_def)
  from a b c d e f p example_images example_analyzeDir example_analyzeDir_other
  show ?thesis by blast
qed

text \<open>
  Beyond the range of \<open>long\<close> the comparator does not rank by pixel area: the product of
  \<open>2^32\<close> and \<open>2^32\<close> is computed as 0, so an image of that width and height does not
  come before one of a single pixel.
\<close>

lemma ImageInfoComparator_beyond_long:
  "\<not> ImageInfoComparator \<lparr>path = ''a'', width = 4294967296, height = 4294967296\<rparr>
                           \<lparr>path = ''b'', width = 1, height = 1\<rparr>
   \<and> pixel_area \<lparr>path = ''b'', width = 1, height = 1\<rparr>
       < pixel_area \<lparr>path = ''a'', width = 4294967296, height = 4294967296\<rparr>"
  by (simp add: ImageInfoComparator_def pixel_area_def machine_eval)

subsection \<open>The end-to-end scenario\<close>

lemma scenario_words:
  "counted_words ''hello hello world'' = [''hello'', ''hello'', ''world'']"
  by code_simp

lemma scenario_sorted:
  "std_sort WordFrequencyComparator [(''hello'', 2), (''world'', 1)] =
     [(''hello'', 2), (''world'', 1)]"
  by code_simp

lemma std_sort_Nil: "std_sort cmp [] = []"
  by (simp add: std_sort_def)

lemma resize_min_take: "0 \<le> n \<Longrightarrow> resize_min n v = Inr (take (nat n) v)"
  by (simp add: resize_min_Inr)

lemma scenario_analyzeDir:
  assumes "0 \<le> n"
  shows "analyzeDir globals_init scenario_tree n = Inr (scenario_result n, scenario_final_tables)"
    and "analyzeDir globals_init scenario_tree_swapped n =
           Inr (scenario_result n,
                scenario_final_tables\<lparr>parent_map := [(''.'', []), (''./empty'', ''.'')],
                  n_files_map := [(''.'', 1), (''./empty'', 0), ([], 1)]\<rparr>)"
  using assms
  by (simp_all add: analyzeDir_def scenario_tree_def scenario_tree_swapped_def a_txt_def
      walk_eval scenario_words scenario_sorted resize_min_take scenario_result_def
      scenario_final_tables_def get_top_level_vacant_dirs_def parent_at_def std_sort_Nil)

text \<open>
  Claim C4, as the code has it.  \<open>world\<close> has 5 letters and is counted, so the table
  holds \<open>hello\<close> twice and \<open>world\<close> once: for every \<open>n \<ge> 1\<close> the analysis of the scenario
  tree (with its two entries in either order) returns the first \<open>n\<close> of
  \<open>[(hello, 2), (world, 1)]\<close>, that is \<open>[(hello, 2)]\<close> for \<open>n = 1\<close> and both pairs for
  every larger \<open>n\<close>, with \<open>vacant_dirs = [empty]\<close>, \<open>n_files = 1\<close> and \<open>n_dirs = 2\<close>.
\<close>

theorem scenario_returns_first_n_of_two_words:
  assumes "1 \<le> n"
  shows "(\<exists>g'. analyzeDir globals_init scenario_tree n = Inr (scenario_result n, g'))
    \<and> (\<exists>g'. analyzeDir globals_init scenario_tree_swapped n = Inr (scenario_result n, g'))
    \<and> most_common_words (scenario_result n) =
          (if n = 1 then [(''hello'', 2)] else [(''hello'', 2), (''world'', 1)])
    \<and> vacant_dirs (scenario_result n) = [''empty'']
    \<and> Results.n_files (scenario_result n) = 1
    \<and> Results.n_dirs (scenario_result n) = 2"
proof -
  from assms have n: "0 \<le> n" by simp
  have "take (nat n) [(''hello'', 2::int), (''world'', 1)] =
          (if n = 1 then [(''hello'', 2)] else [(''hello'', 2), (''world'', 1)])"
  proof (cases "n = 1")
    case True
    then show ?thesis by simp
  next
    case False
    with assms have "2 \<le> nat n" by simp
    with False show ?thesis by simp
  qed
  with scenario_analyzeDir [OF n] show ?thesis
    by (simp add: scenario_result_def)
qed

theorem scenario_returns_first_n_of_two_words_witness:
  "(1::int) \<le> 1
   \<and> analyzeDir globals_init scenario_tree 1 = Inr (scenario_result 1, scenario_final_tables)
   \<and> most_common_words (scenario_result 1) = [(''hello'', 2)]
   \<and> vacant_dirs (scenario_result 1) = [''empty'']
   \<and> Results.n_files (scenario_result 1) = 1
   \<and> Results.n_dirs (scenario_result 1) = 2"
proof -
  have h: "(1::int) \<le> 1" by simp
  from scenario_returns_first_n_of_two_words [OF h] scenario_analyzeDir(1) [of 1]
  show ?thesis by simp
qed

text \<open>
  Claim C4 as stated fails for \<open>n = 2\<close>: the analysis returns both words, not only
  \<open>(hello, 2)\<close>.
\<close>

theorem scenario_two_words_counterexample:
  "analyzeDir globals_init scenario_tree 2 = Inr (scenario_result 2, scenario_final_tables)
   \<and> most_common_words (scenario_result 2) = [(''hello'', 2), (''world'', 1)]
   \<and> most_common_words (scenario_result 2) \<noteq> [(''hello'', 2)]"
  using scenario_analyzeDir(1) [of 2] by (simp add: scenario_result_def)

subsection \<open>Largest file\<close>

lemma pick_larger_cases: "pick_larger acc x = acc \<or> pick_larger acc x = x"
  by (simp add: pick_larger_def)

lemma foldl_pick_larger_mem: "foldl pick_larger acc xs \<in> insert acc (set xs)"
proof (induction xs arbitrary: acc)
  case Nil
  then show ?case by simp
next
  case (Cons x xs)
  from Cons.IH [of "pick_larger acc x"] pick_larger_cases [of acc x] show ?case
    by auto
qed

lemma foldl_pick_larger_ge: "snd acc \<le> snd (foldl pick_larger acc xs)"
proof (induction xs arbitrary: acc)
  case Nil
  then show ?case by simp
next
  case (Cons x xs)
  have "snd acc \<le> snd (pick_larger acc x)" by (simp add: pick_larger_def)
  also have "\<dots> \<le> snd (foldl pick_larger (pick_larger acc x) xs)" by (rule Cons.IH)
  finally show ?case by simp
qed

text \<open>Scanning from an accumulator is merging the scan from any smaller start into it.\<close>

lemma foldl_pick_larger_merge:
  "snd init \<le> snd acc \<Longrightarrow>
   foldl pick_larger acc xs = pick_larger acc (foldl pick_larger init xs)"
proof (induction xs rule: rev_induct)
  case Nil
  then show ?case by (simp add: pick_larger_def)
next
  case (snoc x xs)
  then have "foldl pick_larger acc (xs @ [x]) =
               pick_larger (pick_larger acc (foldl pick_larger init xs)) x"
    by simp
  also have "\<dots> = pick_larger acc (pick_larger (foldl pick_larger init xs) x)"
    by (simp add: pick_larger_def)
  finally show ?case by simp
qed

text \<open>The scan returns the first element of maximal size, unless no element beats the start.\<close>

lemma foldl_pick_larger_first:
  "(foldl pick_larger acc xs = acc \<and> (\<forall>x\<in>set xs. snd x \<le> snd acc))
   \<or> (\<exists>pre post. xs = pre @ foldl pick_larger acc xs # post
         \<and> (\<forall>x\<in>set pre. snd x < snd (foldl pick_larger acc xs))
         \<and> snd acc < snd (foldl pick_larger acc xs)
         \<and> (\<forall>x\<in>set post. snd x \<le> snd (foldl pick_larger acc xs)))"
proof (induction xs arbitrary: acc)
  case Nil
  then show ?case by simp
next
  case (Cons x xs)
  let ?r = "foldl pick_larger (pick_larger acc x) xs"
  from Cons.IH [of "pick_larger acc x"]
  consider (stay) "?r = pick_larger acc x" "\<forall>y\<in>set xs. snd y \<le> snd (pick_larger acc x)"
    | (later) pre post where "xs = pre @ ?r # post" "\<forall>y\<in>set pre. snd y < snd ?r"
        "snd (pick_larger acc x) < snd ?r" "\<forall>y\<in>set post. snd y \<le> snd ?r"
    by blast
  then show ?case
  proof cases
    case stay
    show ?thesis
    proof (cases "snd x > snd acc")
      case True
      then have p: "pick_larger acc x = x" by (simp add: pick_larger_def)
      with stay True have "x # xs = [] @ ?r # xs" "snd acc < snd ?r"
        "\<forall>y\<in>set xs. snd y \<le> snd ?r"
        by simp_all
      then show ?thesis by (intro disjI2 exI [of _ "[]"] exI [of _ xs]) simp
    next
      case False
      then have p: "pick_larger acc x = acc" by (simp add: pick_larger_def)
      with stay False show ?thesis by (intro disjI1) auto
    qed
  next
    case later
    have "snd acc \<le> snd (pick_larger acc x)" "snd x \<le> snd (pick_larger acc x)"
      by (simp_all add: pick_larger_def)
    with later have "x # xs = (x # pre) @ ?r # post" "\<forall>y\<in>set (x # pre). snd y < snd ?r"
      "snd acc < snd ?r"
      by auto
    with later(4) show ?thesis
      by (intro disjI2 exI [of _ "x # pre"] exI [of _ post]) simp
  qed
qed

lemma sized_files_Nil [simp]: "sized_files [] = []"
  by (simp add: sized_files_def List.map_filter_simps)

lemma sized_files_Cons [simp]:
  "sized_files ((p, f) # xs) =
     (case st_size f of None \<Rightarrow> sized_files xs | Some s \<Rightarrow> (clean_path p, s) # sized_files xs)"
  by (simp add: sized_files_def List.map_filter_simps split: option.splits)

lemma sized_files_append [simp]:
  "sized_files (xs @ ys) = sized_files xs @ sized_files ys"
  by (simp add: sized_files_def List.map_filter_def)

lemma sized_files_path:
  "(q, s) \<in> set (sized_files fs) \<Longrightarrow> \<exists>p f. (p, f) \<in> set fs \<and> q = clean_path p"
proof (induction fs)
  case Nil
  then show ?case by simp
next
  case (Cons x fs)
  obtain p f where x: "x = (p, f)" by (cases x)
  show ?case
  proof (cases "(q, s) \<in> set (sized_files fs)")
    case True
    from Cons.IH [OF this] show ?thesis by auto
  next
    case False
    with Cons.prems x have "q = clean_path p"
      by (auto split: option.splits)
    with x show ?thesis by auto
  qed
qed

lemma sized_files_split:
  "sized_files (x # xs) = sized_files [x] @ sized_files xs"
  using sized_files_append [of "[x]" xs] by (simp del: sized_files_Cons)

text \<open>Every path below a directory extends the path of the directory.\<close>

lemma files_of_extends:
  "(q, f) \<in> set (files_of p node) \<Longrightarrow>
     \<exists>rest. q = p @ rest \<and> (rest = [] \<or> hd rest = PATH_SEPARATOR)"
proof (induction p node arbitrary: q f rule: files_of.induct)
  case (1 p f')
  then show ?case by simp
next
  case (2 p entries)
  from "2.prems" obtain entry_name node where
    e: "(entry_name, node) \<in> set entries" "\<not> skipped entry_name"
      "(q, f) \<in> set (files_of (child_path p entry_name) node)"
    by (auto simp: files_of.simps(2) split: if_splits)
  from "2.IH" [OF e(1) refl e(2) e(3)] obtain rest where
    "q = child_path p entry_name @ rest" by blast
  then have "q = p @ (PATH_SEPARATOR # entry_name @ rest)"
    by (simp add: child_path_def)
  then show ?case by (intro exI [of _ "PATH_SEPARATOR # entry_name @ rest"]) simp
qed simp_all

lemma files_of_Dir_mem:
  "(q, f) \<in> set (files_of p (Dir entries)) \<Longrightarrow>
     \<exists>entry_name node. (entry_name, node) \<in> set entries \<and> \<not> skipped entry_name
        \<and> (q, f) \<in> set (files_of (child_path p entry_name) node)"
  by (auto simp: files_of.simps(2) split: if_splits)

text \<open>
  Below the root \<open>.\<close> of a well-formed tree, cleaning a path a second time changes
  nothing: the cleaned path starts with an entry name that is not \<open>.\<close> and holds no
  separator.
\<close>

lemma clean_path_stable:
  assumes "wf_names (Dir entries)"
    and "(q, f) \<in> set (files_of CURRENT_DIRECTORY (Dir entries))"
  shows "clean_path (clean_path q) = clean_path q"
proof -
  from files_of_Dir_mem [OF assms(2)] obtain entry_name node where
    e: "(entry_name, node) \<in> set entries" "\<not> skipped entry_name"
      "(q, f) \<in> set (files_of (child_path CURRENT_DIRECTORY entry_name) node)"
    by blast
  from files_of_extends [OF e(3)] obtain rest where
    q: "q = child_path CURRENT_DIRECTORY entry_name @ rest"
      and r: "rest = [] \<or> hd rest = PATH_SEPARATOR"
    by blast
  from assms(1) e(1) have n: "PATH_SEPARATOR \<notin> set entry_name" by auto
  from q have c: "clean_path q = entry_name @ rest"
    by (simp add: clean_path_def child_path_def CURRENT_DIRECTORY_def)
  have "take 2 (entry_name @ rest) \<noteq> CURRENT_DIRECTORY @ [PATH_SEPARATOR]"
  proof
    assume t: "take 2 (entry_name @ rest) = CURRENT_DIRECTORY @ [PATH_SEPARATOR]"
    show False
    proof (cases entry_name)
      case Nil
      with t r show ?thesis
        by (cases rest) (auto simp: CURRENT_DIRECTORY_def PATH_SEPARATOR_def)
    next
      case (Cons c cs)
      show ?thesis
      proof (cases cs)
        case Nil
        with Cons t e(2) show ?thesis
          by (cases rest) (auto simp: CURRENT_DIRECTORY_def skipped_def)
      next
        case (Cons c' cs')
        with \<open>entry_name = c # cs\<close> t n show ?thesis
          by (auto simp: CURRENT_DIRECTORY_def)
      qed
    qed
  qed
  then have "clean_path (entry_name @ rest) = entry_name @ rest"
    by (simp add: clean_path_def)
  then show ?thesis unfolding c .
qed

lemma files_of_child_subset:
  assumes "(entry_name, node) \<in> set entries" "\<not> skipped entry_name"
  shows "set (files_of (child_path p entry_name) node) \<subseteq> set (files_of p (Dir entries))"
  using assms by (auto simp: files_of.simps(2) intro!: bexI [of _ "(entry_name, node)"])

text \<open>
  The largest file of a traversal is the result of the scan over its sized files,
  provided cleaning a cleaned path of the tree changes nothing.
\<close>

lemma walk_largest:
  "walk g p par node st g' \<Longrightarrow>
     (\<forall>(q, f)\<in>set (files_of p node). clean_path (clean_path q) = clean_path q) \<Longrightarrow>
     (largest_file_path st, largest_file_size st) =
       foldl pick_larger (NO_PATH, DEFAULT_LARGEST_SIZE) (sized_files (files_of p node))"
  "walk_entries g p st0 es st g' \<Longrightarrow>
     (\<forall>(q, f)\<in>set (files_of p (Dir es)). clean_path (clean_path q) = clean_path q) \<Longrightarrow>
     DEFAULT_LARGEST_SIZE \<le> largest_file_size st0 \<Longrightarrow>
     (largest_file_path st, largest_file_size st) =
       foldl pick_larger (largest_file_path st0, largest_file_size st0)
         (sized_files (files_of p (Dir es)))"
proof (induction rule: walk_walk_entries.inducts)
  case (walk_Dir g p par es st g')
  then show ?case by (simp add: DirStats_init_def)
next
  case (walk_Nil g p st)
  then show ?case by simp
next
  case (walk_skip name g p st rest st' g' node)
  then show ?case by simp
next
  case (walk_Other name g p st rest st' g')
  then show ?case by simp
next
  case (walk_File name g p f st st1 g1 rest st' g')
  let ?acc = "(largest_file_path st, largest_file_size st)"
  let ?x = "sized_files [(child_path p name, f)]"
  let ?r = "sized_files (files_of p (Dir rest))"
  note v = visit_file_stats(5,6) [OF walk_File.hyps(2)]
  have step: "foldl pick_larger ?acc ?x = (largest_file_path st1, largest_file_size st1)"
    using v by (cases "st_size f") (simp_all add: pick_larger_def)
  have ge: "DEFAULT_LARGEST_SIZE \<le> largest_file_size st1"
    using v walk_File.prems(2) by (cases "st_size f") simp_all
  have st: "\<forall>(q, f)\<in>set (files_of p (Dir rest)). clean_path (clean_path q) = clean_path q"
    using walk_File.prems(1) walk_File.hyps(1) by auto
  have "files_of p (Dir ((name, RegFile f) # rest)) =
          (child_path p name, f) # files_of p (Dir rest)"
    using walk_File.hyps(1) by simp
  then have "sized_files (files_of p (Dir ((name, RegFile f) # rest))) = ?x @ ?r"
    by (simp only:) (rule sized_files_split)
  then have "foldl pick_larger ?acc (sized_files (files_of p (Dir ((name, RegFile f) # rest)))) =
               foldl pick_larger (foldl pick_larger ?acc ?x) ?r"
    by (simp only: foldl_append)
  also have "\<dots> = foldl pick_larger (largest_file_path st1, largest_file_size st1) ?r"
    by (simp only: step)
  also have "\<dots> = (largest_file_path st', largest_file_size st')"
    by (rule walk_File.IH [OF st ge, symmetric])
  finally show ?case by (rule sym)
next
  case (walk_Subdir name g p es sub g1 st st2 g2 rest st' g')
  let ?xs = "sized_files (files_of (child_path p name) (Dir es))"
  let ?r = "sized_files (files_of p (Dir rest))"
  let ?acc = "(largest_file_path st, largest_file_size st)"
  let ?init = "(NO_PATH, DEFAULT_LARGEST_SIZE)"
  let ?sub = "(largest_file_path sub, largest_file_size sub)"
  have sub_st: "\<forall>(q, f)\<in>set (files_of (child_path p name) (Dir es)).
                  clean_path (clean_path q) = clean_path q"
    using walk_Subdir.prems(1) walk_Subdir.hyps(1) by auto
  have rest_st: "\<forall>(q, f)\<in>set (files_of p (Dir rest)). clean_path (clean_path q) = clean_path q"
    using walk_Subdir.prems(1) walk_Subdir.hyps(1) by auto
  from walk_Subdir.IH(1) [OF sub_st]
  have sub: "foldl pick_larger ?init ?xs = ?sub" by (rule sym)
  note m = merge_subdir_stats(5,6) [OF walk_Subdir.hyps(3)]
  have clean_sub: "clean_path (largest_file_path sub) = largest_file_path sub"
    if gt: "largest_file_size sub > largest_file_size st"
  proof -
    from gt walk_Subdir.prems(2) have "largest_file_size sub \<noteq> DEFAULT_LARGEST_SIZE"
      by simp
    then have "?sub \<noteq> ?init" by simp
    moreover from foldl_pick_larger_mem [of ?init ?xs] have "?sub \<in> insert ?init (set ?xs)"
      by (simp only: sub)
    ultimately have "?sub \<in> set ?xs" by blast
    from sized_files_path [OF this] obtain q f where
      "(q, f) \<in> set (files_of (child_path p name) (Dir es))"
      "largest_file_path sub = clean_path q"
      by blast
    with sub_st show ?thesis by auto
  qed
  have step: "foldl pick_larger ?acc ?xs = (largest_file_path st2, largest_file_size st2)"
  proof -
    have "foldl pick_larger ?acc ?xs = pick_larger ?acc (foldl pick_larger ?init ?xs)"
      using walk_Subdir.prems(2) by (intro foldl_pick_larger_merge) simp
    also have "\<dots> = pick_larger ?acc ?sub"
      by (simp only: sub)
    also have "\<dots> = (largest_file_path st2, largest_file_size st2)"
    proof (cases "largest_file_size sub > largest_file_size st")
      case True
      with m clean_sub show ?thesis by (simp add: pick_larger_def)
    next
      case False
      with m show ?thesis by (simp add: pick_larger_def)
    qed
    finally show ?thesis .
  qed
  have ge: "DEFAULT_LARGEST_SIZE \<le> largest_file_size st2"
    using m walk_Subdir.prems(2) by simp
  have "sized_files (files_of p (Dir ((name, Dir es) # rest))) = ?xs @ ?r"
    using walk_Subdir.hyps(1) by simp
  then have "foldl pick_larger ?acc (sized_files (files_of p (Dir ((name, Dir es) # rest)))) =
               foldl pick_larger (foldl pick_larger ?acc ?xs) ?r"
    by (simp only: foldl_append)
  also have "\<dots> = foldl pick_larger (largest_file_path st2, largest_file_size st2) ?r"
    by (simp only: step)
  also have "\<dots> = (largest_file_path st', largest_file_size st')"
    by (rule walk_Subdir.IH(2) [OF rest_st ge, symmetric])
  finally show ?case by (rule sym)
qed

text \<open>
  Claim C6.  Visiting a file replaces the largest file exactly when the size lookup
  succeeds with a size strictly greater than the current \<open>largest_file_size\<close>; merging a
  subdirectory replaces it exactly when the child's size is strictly greater, and
  otherwise keeps the parent's value.  Over a whole well-formed tree the two steps add
  up to one scan of the sized files in traversal order that replaces only on strictly
  greater: the result is the first file of maximal size (everything before it is
  strictly smaller, nothing after it is larger), or the initial values when no size
  exceeds \<open>-1\<close>.
\<close>

theorem largest_file_replaced_only_by_strictly_larger:
  "(visit_file g d p f st = Inr (st', g1) \<longrightarrow>
      (largest_file_path st', largest_file_size st') =
        (case st_size f of
           None \<Rightarrow> (largest_file_path st, largest_file_size st)
         | Some s \<Rightarrow> if s > largest_file_size st then (clean_path p, s)
                    else (largest_file_path st, largest_file_size st)))
   \<and> (merge_subdir g d sub st = (st2, g2) \<longrightarrow>
      (largest_file_path st2, largest_file_size st2) =
        (if largest_file_size sub > largest_file_size st
         then (clean_path (largest_file_path sub), largest_file_size sub)
         else (largest_file_path st, largest_file_size st)))
   \<and> (wf_names cwd \<longrightarrow> analyzeDir g cwd n = Inr (res, g') \<longrightarrow>
        (Results.largest_file_path res, Results.largest_file_size res) =
          first_largest (sized_files (files_of CURRENT_DIRECTORY cwd)))
   \<and> ((first_largest xs = (NO_PATH, DEFAULT_LARGEST_SIZE)
         \<and> (\<forall>x\<in>set xs. snd x \<le> DEFAULT_LARGEST_SIZE))
        \<or> (\<exists>pre post. xs = pre @ first_largest xs # post
              \<and> (\<forall>x\<in>set pre. snd x < snd (first_largest xs))
              \<and> (\<forall>x\<in>set post. snd x \<le> snd (first_largest xs))))"
proof -
  have a: "(largest_file_path st', largest_file_size st') =
        (case st_size f of
           None \<Rightarrow> (largest_file_path st, largest_file_size st)
         | Some s \<Rightarrow> if s > largest_file_size st then (clean_path p, s)
                    else (largest_file_path st, largest_file_size st))"
    if "visit_file g d p f st = Inr (st', g1)"
    using visit_file_stats(5,6) [OF that] by (cases "st_size f") simp_all
  have b: "(largest_file_path st2, largest_file_size st2) =
        (if largest_file_size sub > largest_file_size st
         then (clean_path (largest_file_path sub), largest_file_size sub)
         else (largest_file_path st, largest_file_size st))"
    if "merge_subdir g d sub st = (st2, g2)"
    using merge_subdir_stats(5,6) [OF that] by simp
  have c: "(Results.largest_file_path res, Results.largest_file_size res) =
          first_largest (sized_files (files_of CURRENT_DIRECTORY cwd))"
    if wf: "wf_names cwd" and run: "analyzeDir g cwd n = Inr (res, g')"
    using run
  proof (rule analyzeDir_Inr)
    fix st0 :: DirStats and g0 :: globals
    assume d: "get_dir_stats g CURRENT_DIRECTORY NO_PATH cwd = Inr (st0, g0)"
      and r: "res = \<lparr>Results.largest_file_path = largest_file_path st0,
            largest_file_size = largest_file_size st0,
            n_files = n_files st0,
            n_dirs = n_dirs st0,
            all_files_size = all_files_size st0,
            most_common_words =
              take (nat n) (std_sort WordFrequencyComparator (most_common_words_map g0)),
            largest_images = take (nat n) (std_sort ImageInfoComparator (largest_images st0)),
            vacant_dirs = fst (get_top_level_vacant_dirs g0)\<rparr>"
    from d obtain entries where cwd: "cwd = Dir entries"
      by (cases cwd) simp_all
    have "\<forall>(q, f)\<in>set (files_of CURRENT_DIRECTORY cwd).
            clean_path (clean_path q) = clean_path q"
      using clean_path_stable wf unfolding cwd by blast
    from walk_largest(1) [OF get_dir_stats_walk(1) [OF d] this] r
    show ?thesis by (simp add: first_largest_def)
  qed
  from a b c foldl_pick_larger_first [of "(NO_PATH, DEFAULT_LARGEST_SIZE)" xs]
  show ?thesis
    unfolding first_largest_def by (simp only: snd_conv) blast
qed

lemma example_wf_names: "wf_names example_tree"
  by (simp add: example_tree_def PATH_SEPARATOR_def)

lemma example_visit_tie:
  "visit_file globals_init ''./pics'' ''./pics/photo.jpg'' photo tie_stats =
     Inr (tie_stats\<lparr>n_files := 1, all_files_size := 2048,
            largest_images := [\<lparr>path = ''pics/photo.jpg'', width = 640, height = 480\<rparr>]\<rparr>,
          globals_init\<lparr>n_files_map := [(''./pics'', 1)]\<rparr>)"
  by (simp add: walk_eval photo_def tie_stats_def example_words example_dimensions)

lemma example_merge_tie:
  "merge_subdir globals_init ''./pics'' tie_child_stats tie_stats =
     (tie_stats\<lparr>n_dirs := 2\<rparr>, globals_init\<lparr>n_files_map := [(''./pics'', 0)]\<rparr>)"
  by (simp add: walk_eval tie_stats_def tie_child_stats_def)

theorem largest_file_replaced_only_by_strictly_larger_witness:
  "visit_file globals_init ''./pics'' ''./pics/photo.jpg'' photo tie_stats =
     Inr (tie_stats\<lparr>n_files := 1, all_files_size := 2048,
            largest_images := [\<lparr>path = ''pics/photo.jpg'', width = 640, height = 480\<rparr>]\<rparr>,
          globals_init\<lparr>n_files_map := [(''./pics'', 1)]\<rparr>)
   \<and> st_size photo = Some 2048 \<and> largest_file_size tie_stats = 2048
   \<and> merge_subdir globals_init ''./pics'' tie_child_stats tie_stats =
       (tie_stats\<lparr>n_dirs := 2\<rparr>, globals_init\<lparr>n_files_map := [(''./pics'', 0)]\<rparr>)
   \<and> largest_file_size tie_child_stats = 2048
   \<and> largest_file_path (tie_stats\<lparr>n_dirs := 2\<rparr>) = ''pics/icon.png''
   \<and> wf_names example_tree
   \<and> analyzeDir globals_init example_tree 2 = Inr (example_result, example_final_tables)
   \<and> sized_files (files_of CURRENT_DIRECTORY example_tree) =
       [(''notes.TXT'', 30), (''pics/icon.png'', 2048), (''pics/photo.jpg'', 2048)]
   \<and> first_largest (sized_files (files_of CURRENT_DIRECTORY example_tree)) =
       (''pics/icon.png'', 2048)
   \<and> Results.largest_file_path example_result = ''pics/icon.png''
   \<and> Results.largest_file_size example_result = 2048"
proof -
  have s: "sized_files (files_of CURRENT_DIRECTORY example_tree) =
       [(''notes.TXT'', 30), (''pics/icon.png'', 2048), (''pics/photo.jpg'', 2048)]"
    by code_simp
  have p: "st_size photo = Some 2048" "largest_file_size tie_stats = 2048"
    "largest_file_size tie_child_stats = 2048"
    by (simp_all add: photo_def tie_stats_def tie_child_stats_def DirStats_init_def)
  note t = largest_file_replaced_only_by_strictly_larger
      [where g = globals_init and d = "''./pics''" and p = "''./pics/photo.jpg''" and f = photo
         and st = tie_stats
         and st' = "tie_stats\<lparr>n_files := 1, all_files_size := 2048,
            largest_images := [\<lparr>path = ''pics/photo.jpg'', width = 640, height = 480\<rparr>]\<rparr>"
         and ?g1.0 = "globals_init\<lparr>n_files_map := [(''./pics'', 1)]\<rparr>"
         and sub = tie_child_stats and ?st2.0 = "tie_stats\<lparr>n_dirs := 2\<rparr>"
         and ?g2.0 = "globals_init\<lparr>n_files_map := [(''./pics'', 0)]\<rparr>"
         and cwd = example_tree and n = 2 and res = example_result
         and g' = example_final_tables
         and xs = "sized_files (files_of CURRENT_DIRECTORY example_tree)"]
  from t example_wf_names example_analyzeDir
  have f: "(Results.largest_file_path example_result, Results.largest_file_size example_result) =
          first_largest (sized_files (files_of CURRENT_DIRECTORY example_tree))"
    by blast
  have r: "Results.largest_file_path example_result = ''pics/icon.png''"
    "Results.largest_file_size example_result = 2048"
    by (simp_all add: example_result_def)
  from f r have fl: "first_largest (sized_files (files_of CURRENT_DIRECTORY example_tree)) =
       (''pics/icon.png'', 2048)"
    by simp
  have m: "largest_file_path (tie_stats\<lparr>n_dirs := 2\<rparr>) = ''pics/icon.png''"
    by (simp add: tie_stats_def)
  from s p fl r m example_visit_tie example_merge_tie example_wf_names example_analyzeDir
  show ?thesis by simp
qed

subsection \<open>Rows\<close>

lemma child_rows_Nil [simp]: "child_rows ancs p [] = []"
  by (simp add: child_rows_def)

lemma child_rows_Cons [simp]:
  "child_rows ancs p ((name, node) # rest) =
     (if skipped name then [] else dir_rows ancs (child_path p name) node)
     @ child_rows ancs p rest"
  by (simp add: child_rows_def)

lemma dir_rows_Dir:
  "dir_rows ancs p (Dir entries) =
     (p, file_count (Dir entries), ancs)
     # child_rows ((p, file_count (Dir entries)) # ancs) p entries"
  by (simp add: child_rows_def)

declare dir_rows.simps(1) [simp del]

lemma row_counts_simps [simp]:
  "row_counts [] = []"
  "row_counts ((p, c, a) # rows) = (p, int c) # row_counts rows"
  "row_counts (xs @ ys) = row_counts xs @ row_counts ys"
  by (simp_all add: row_counts_def)

lemma row_parents_simps [simp]:
  "row_parents [] = []"
  "row_parents ((p, c, a) # rows) = (p, parent_path a) # row_parents rows"
  "row_parents (xs @ ys) = row_parents xs @ row_parents ys"
  by (simp_all add: row_parents_def)

lemma fst_row_counts [simp]: "map fst (row_counts rows) = map fst rows"
  by (induction rows) auto

lemma fst_row_parents [simp]: "map fst (row_parents rows) = map fst rows"
  by (induction rows) auto

text \<open>Every row path below a directory extends the path of the directory.\<close>

lemma dir_rows_extends:
  "r \<in> set (dir_rows ancs p node) \<Longrightarrow>
     \<exists>rest. fst r = p @ rest \<and> (rest = [] \<or> hd rest = PATH_SEPARATOR)"
proof (induction ancs p node arbitrary: r rule: dir_rows.induct)
  case (1 ancs p entries)
  show ?case
  proof (cases "r = (p, file_count (Dir entries), ancs)")
    case True
    then show ?thesis by simp
  next
    case False
    with "1.prems" obtain entry_name node where
      e: "(entry_name, node) \<in> set entries" "\<not> skipped entry_name"
        "r \<in> set (dir_rows ((p, file_count (Dir entries)) # ancs)
                    (child_path p entry_name) node)"
      by (auto simp: dir_rows_Dir child_rows_def split: if_splits)
    from "1.IH" [OF e(1) refl e(2) e(3)] obtain rest where
      "fst r = child_path p entry_name @ rest" by blast
    then have "fst r = p @ (PATH_SEPARATOR # entry_name @ rest)"
      by (simp add: child_path_def)
    then show ?thesis by (intro exI [of _ "PATH_SEPARATOR # entry_name @ rest"]) simp
  qed
qed simp_all

lemma child_rows_mem:
  "r \<in> set (child_rows ancs p entries) \<Longrightarrow>
     \<exists>entry_name node. (entry_name, node) \<in> set entries \<and> \<not> skipped entry_name
        \<and> r \<in> set (dir_rows ancs (child_path p entry_name) node)"
  by (auto simp: child_rows_def split: if_splits)

lemma child_rows_extends:
  assumes "r \<in> set (child_rows ancs p entries)"
  shows "\<exists>rest. fst r = p @ PATH_SEPARATOR # rest"
proof -
  from child_rows_mem [OF assms] obtain entry_name node where
    "r \<in> set (dir_rows ancs (child_path p entry_name) node)" by blast
  from dir_rows_extends [OF this] obtain rest where
    "fst r = child_path p entry_name @ rest" by blast
  then show ?thesis by (simp add: child_path_def)
qed

lemma child_rows_not_parent: "p \<notin> fst ` set (child_rows ancs p entries)"
proof
  assume "p \<in> fst ` set (child_rows ancs p entries)"
  then obtain r where "r \<in> set (child_rows ancs p entries)" "fst r = p" by auto
  with child_rows_extends [of r ancs p entries] show False by auto
qed

lemma dir_rows_child_not_parent:
  "p \<notin> fst ` set (dir_rows ancs (child_path p name) node)"
proof
  assume "p \<in> fst ` set (dir_rows ancs (child_path p name) node)"
  then obtain r where "r \<in> set (dir_rows ancs (child_path p name) node)" "fst r = p" by auto
  with dir_rows_extends [of r ancs "child_path p name" node] show False
    by (auto simp: child_path_def)
qed

subsection \<open>The tables after a traversal\<close>

lemma map_of_rev_append: "map_of (rev (xs @ ys)) = map_of (rev xs) ++ map_of (rev ys)"
  by simp

lemma map_add_upd_upd: "(m(p \<mapsto> x) ++ c)(p \<mapsto> y) = (m ++ c)(p \<mapsto> y)"
  by (rule ext) (simp add: map_add_def split: option.splits)

lemma map_add_upd_left: "p \<notin> dom c \<Longrightarrow> m(p \<mapsto> x) ++ c = (m ++ c)(p \<mapsto> x)"
  by (rule ext) (auto simp: map_add_def split: option.splits)

lemma map_add_not_dom: "p \<notin> dom c \<Longrightarrow> (m ++ c) p = m p"
  by (auto simp: map_add_def split: option.splits)

lemma dom_rev_row_counts: "dom (map_of (rev (row_counts rows))) = fst ` set rows"
proof -
  have "dom (map_of (rev (row_counts rows))) = fst ` set (rev (row_counts rows))"
    by (rule dom_map_of_conv_image_fst)
  also have "\<dots> = set (map fst (row_counts rows))" by (simp only: set_map set_rev)
  also have "\<dots> = set (map fst rows)" by (simp only: fst_row_counts)
  also have "\<dots> = fst ` set rows" by simp
  finally show ?thesis .
qed

lemma map_of_add_at:
  assumes "map_of m k = Some v" "INT_MIN \<le> v + n" "v + n \<le> INT_MAX"
  shows "map_of (add_at k n m) = (map_of m)(k \<mapsto> v + n)"
  using assms by (simp add: add_at_def at_def update_conv' to_int_id)

text \<open>
  The counts: every directory entered gets its recursive file count, a later visit of
  the same path overriding an earlier one; all other keys keep their values.  This
  holds as long as the counts fit an \<open>int\<close>: the count of a directory starts at 0 and only
  grows, up to its recursive file count.
\<close>

lemma walk_n_files_map:
  "walk g p par node st g' \<Longrightarrow> int (file_count node) \<le> INT_MAX \<Longrightarrow>
     map_of (n_files_map g') =
       map_of (n_files_map g) ++ map_of (rev (row_counts (dir_rows ancs p node)))"
  "walk_entries g p st0 es st g' \<Longrightarrow> map_of (n_files_map g) p = Some v \<Longrightarrow>
     0 \<le> v \<Longrightarrow> v + int (file_count (Dir es)) \<le> INT_MAX \<Longrightarrow>
     map_of (n_files_map g') =
       (map_of (n_files_map g) ++ map_of (rev (row_counts (child_rows ancs p es))))
         (p \<mapsto> v + int (file_count (Dir es)))"
proof (induction arbitrary: ancs and ancs v rule: walk_walk_entries.inducts)
  case (walk_Dir p g par es st g')
  let ?g0 = "g\<lparr>parent_map := AList.update p par (parent_map g),
                n_files_map := AList.update p 0 (n_files_map g)\<rparr>"
  let ?C = "map_of (rev (row_counts (child_rows ((p, file_count (Dir es)) # ancs) p es)))"
  have g0: "map_of (n_files_map ?g0) = (map_of (n_files_map g))(p \<mapsto> 0)"
    by (simp add: update_conv' del: fun_upd_apply)
  then have at_p: "map_of (n_files_map ?g0) p = Some 0" by simp
  have z: "(0::int) \<le> 0" by simp
  from walk_Dir.prems have b: "0 + int (file_count (Dir es)) \<le> INT_MAX" by simp
  from walk_Dir.IH [OF at_p z b, of "(p, file_count (Dir es)) # ancs"]
  have "map_of (n_files_map g') =
          (map_of (n_files_map ?g0) ++ ?C)(p \<mapsto> 0 + int (file_count (Dir es)))" .
  then have "map_of (n_files_map g') =
          ((map_of (n_files_map g))(p \<mapsto> 0) ++ ?C)(p \<mapsto> int (file_count (Dir es)))"
    by (simp only: g0 add_0)
  also have "\<dots> = (map_of (n_files_map g) ++ ?C)(p \<mapsto> int (file_count (Dir es)))"
    by (rule map_add_upd_upd)
  also have "\<dots> = map_of (n_files_map g) ++
        map_of (rev (row_counts (dir_rows ancs p (Dir es))))"
  proof -
    have "p \<notin> dom ?C"
      unfolding dom_rev_row_counts by (rule child_rows_not_parent)
    then show ?thesis
      by (simp add: dir_rows_Dir map_add_upd_left)
  qed
  finally show ?case .
next
  case (walk_Nil g p st)
  then show ?case by (simp add: map_upd_triv)
next
  case (walk_skip name g p st rest st' g' node)
  then show ?case by simp
next
  case (walk_Other name g p st rest st' g')
  then show ?case by simp
next
  case (walk_File name g p f st st1 g1 rest st' g')
  let ?C = "map_of (rev (row_counts (child_rows ancs p rest)))"
  from walk_File.prems(3) walk_File.hyps(1)
  have b: "v + 1 + int (file_count (Dir rest)) \<le> INT_MAX" by simp
  with walk_File.prems(2) have "INT_MIN \<le> v + 1" "v + 1 \<le> INT_MAX"
    by (simp_all add: INT_MIN_def)
  with visit_file_globals(2) [OF walk_File.hyps(2)] walk_File.prems(1)
  have g1: "map_of (n_files_map g1) = (map_of (n_files_map g))(p \<mapsto> v + 1)"
    by (simp add: map_of_add_at)
  then have at_p: "map_of (n_files_map g1) p = Some (v + 1)" by simp
  from walk_File.prems(2) have nn: "0 \<le> v + 1" by simp
  from walk_File.IH [OF at_p nn b]
  have "map_of (n_files_map g') =
          ((map_of (n_files_map g))(p \<mapsto> v + 1) ++ ?C)
            (p \<mapsto> v + 1 + int (file_count (Dir rest)))"
    by (simp only: g1)
  also have "\<dots> = (map_of (n_files_map g) ++ ?C)(p \<mapsto> v + 1 + int (file_count (Dir rest)))"
    by (rule map_add_upd_upd)
  finally show ?case using walk_File.hyps(1) by (simp add: algebra_simps)
next
  case (walk_Subdir name g p es sub g1 st st2 g2 rest st' g')
  let ?D = "map_of (rev (row_counts (dir_rows ancs (child_path p name) (Dir es))))"
  let ?C = "map_of (rev (row_counts (child_rows ancs p rest)))"
  let ?n = "int (file_count (Dir es))"
  from walk_Subdir.prems(3) walk_Subdir.hyps(1)
  have b: "v + ?n + int (file_count (Dir rest)) \<le> INT_MAX" by simp
  with walk_Subdir.prems(2) have small: "?n \<le> INT_MAX" by simp
  have g1: "map_of (n_files_map g1) = map_of (n_files_map g) ++ ?D"
    by (rule walk_Subdir.IH(1) [OF small])
  have "p \<notin> dom ?D"
    unfolding dom_rev_row_counts by (rule dir_rows_child_not_parent)
  then have g1p: "map_of (n_files_map g1) p = Some v"
    using walk_Subdir.prems(1) by (simp add: g1 map_add_not_dom)
  have sub: "n_files sub = ?n"
    by (rule walk_n_files(1) [OF walk_Subdir.hyps(2)])
  from b walk_Subdir.prems(2) have "INT_MIN \<le> v + ?n" "v + ?n \<le> INT_MAX"
    by (simp_all add: INT_MIN_def)
  with merge_subdir_stats(8) [OF walk_Subdir.hyps(3)] g1p sub
  have g2: "map_of (n_files_map g2) = (map_of (n_files_map g) ++ ?D)(p \<mapsto> v + ?n)"
    by (simp add: map_of_add_at g1)
  then have at_p: "map_of (n_files_map g2) p = Some (v + ?n)" by simp
  from walk_Subdir.prems(2) have nn: "0 \<le> v + ?n" by simp
  from walk_Subdir.IH(2) [OF at_p nn b]
  have "map_of (n_files_map g') =
          ((map_of (n_files_map g) ++ ?D)(p \<mapsto> v + ?n) ++ ?C)
            (p \<mapsto> v + ?n + int (file_count (Dir rest)))"
    by (simp only: g2)
  also have "\<dots> = (map_of (n_files_map g) ++ ?D ++ ?C)
            (p \<mapsto> v + ?n + int (file_count (Dir rest)))"
    by (rule map_add_upd_upd)
  finally show ?case using walk_Subdir.hyps(1) by (simp add: algebra_simps)
qed

text \<open>The parents: every directory entered is mapped to the path it was entered from.\<close>

lemma walk_parent_map:
  "walk g p par node st g' \<Longrightarrow> parent_path ancs = par \<Longrightarrow>
     map_of (parent_map g') =
       map_of (parent_map g) ++ map_of (rev (row_parents (dir_rows ancs p node)))"
  "walk_entries g p st0 es st g' \<Longrightarrow> parent_path ancs = p \<Longrightarrow>
     map_of (parent_map g') =
       map_of (parent_map g) ++ map_of (rev (row_parents (child_rows ancs p es)))"
proof (induction arbitrary: ancs and ancs rule: walk_walk_entries.inducts)
  case (walk_Dir p g par es st g')
  let ?g0 = "g\<lparr>parent_map := AList.update p par (parent_map g),
                n_files_map := AList.update p 0 (n_files_map g)\<rparr>"
  let ?P = "map_of (rev (row_parents (child_rows ((p, file_count (Dir es)) # ancs) p es)))"
  have g0: "map_of (parent_map ?g0) = (map_of (parent_map g))(p \<mapsto> par)"
    by (simp add: update_conv' del: fun_upd_apply)
  have "parent_path ((p, file_count (Dir es)) # ancs) = p"
    by (simp add: parent_path_def)
  from walk_Dir.IH [OF this]
  have "map_of (parent_map g') = (map_of (parent_map g))(p \<mapsto> par) ++ ?P"
    by (simp only: g0)
  also have "\<dots> = map_of (parent_map g) ++ (map_of [(p, parent_path ancs)] ++ ?P)"
    using walk_Dir.prems by (simp del: fun_upd_apply)
  also have "\<dots> = map_of (parent_map g) ++
      map_of (rev (row_parents (dir_rows ancs p (Dir es))))"
    by (simp add: dir_rows_Dir del: fun_upd_apply)
  finally show ?case .
next
  case (walk_File name g p f st st1 g1 rest st' g')
  from walk_File.IH [OF walk_File.prems] visit_file_globals(1) [OF walk_File.hyps(2)]
    walk_File.hyps(1)
  show ?case by simp
next
  case (walk_Subdir name g p es sub g1 st st2 g2 rest st' g')
  from walk_Subdir.IH(1) [OF walk_Subdir.prems] walk_Subdir.IH(2) [OF walk_Subdir.prems]
    merge_subdir_stats(7) [OF walk_Subdir.hyps(3)] walk_Subdir.hyps(1)
  show ?case by simp
qed simp_all

text \<open>The keys of the tables stay distinct.\<close>

lemma distinct_add_at: "distinct (map fst m) \<Longrightarrow> distinct (map fst (add_at k n m))"
  by (simp add: add_at_def distinct_update)

lemma walk_distinct_keys:
  "walk g p par node st g' \<Longrightarrow> distinct (map fst (n_files_map g)) \<Longrightarrow>
     distinct (map fst (n_files_map g'))"
  "walk_entries g p st0 es st g' \<Longrightarrow> distinct (map fst (n_files_map g)) \<Longrightarrow>
     distinct (map fst (n_files_map g'))"
proof (induction rule: walk_walk_entries.inducts)
  case (walk_Dir p g par es st g')
  then show ?case by (simp add: distinct_update)
next
  case (walk_File name g p f st st1 g1 rest st' g')
  then show ?case
    by (simp add: visit_file_globals(2) [OF walk_File.hyps(2)] distinct_add_at)
next
  case (walk_Subdir name g p es sub g1 st st2 g2 rest st' g')
  then show ?case
    by (simp add: merge_subdir_stats(8) [OF walk_Subdir.hyps(3)] distinct_add_at)
qed simp_all

subsection \<open>Paths of a well-formed tree\<close>

lemma takeWhile_stop:
  assumes "\<forall>x\<in>set a. P x" "r = [] \<or> \<not> P (hd r)"
  shows "takeWhile P (a @ r) = a"
proof (cases r)
  case Nil
  with assms show ?thesis by simp
next
  case (Cons x xs)
  with assms show ?thesis by (simp add: takeWhile_tail)
qed

lemma name_split_unique:
  assumes "PATH_SEPARATOR \<notin> set a" "PATH_SEPARATOR \<notin> set b"
    and "r = [] \<or> hd r = PATH_SEPARATOR" "s = [] \<or> hd s = PATH_SEPARATOR"
    and "a @ r = b @ s"
  shows "a = b"
proof -
  have "takeWhile (\<lambda>c. c \<noteq> PATH_SEPARATOR) (a @ r) = a"
    using assms(1,3) by (intro takeWhile_stop) auto
  moreover have "takeWhile (\<lambda>c. c \<noteq> PATH_SEPARATOR) (b @ s) = b"
    using assms(2,4) by (intro takeWhile_stop) auto
  ultimately show ?thesis using assms(5) by simp
qed

text \<open>Subdirectories with different names have no path in common.\<close>

lemma sibling_rows_disjoint:
  assumes "PATH_SEPARATOR \<notin> set name1" "PATH_SEPARATOR \<notin> set name2" "name1 \<noteq> name2"
    and "r1 \<in> set (dir_rows ancs1 (child_path p name1) node1)"
    and "r2 \<in> set (dir_rows ancs2 (child_path p name2) node2)"
  shows "fst r1 \<noteq> fst r2"
proof
  assume eq: "fst r1 = fst r2"
  from dir_rows_extends [OF assms(4)] obtain rest1 where
    r1: "fst r1 = child_path p name1 @ rest1" "rest1 = [] \<or> hd rest1 = PATH_SEPARATOR"
    by blast
  from dir_rows_extends [OF assms(5)] obtain rest2 where
    r2: "fst r2 = child_path p name2 @ rest2" "rest2 = [] \<or> hd rest2 = PATH_SEPARATOR"
    by blast
  from eq r1(1) r2(1) have "name1 @ rest1 = name2 @ rest2"
    by (simp add: child_path_def)
  from name_split_unique [OF assms(1,2) r1(2) r2(2) this] assms(3) show False
    by simp
qed

lemma distinct_child_rows:
  assumes "distinct (map fst entries)"
    and "\<forall>(name, node)\<in>set entries. PATH_SEPARATOR \<notin> set name"
    and "\<And>name node. (name, node) \<in> set entries \<Longrightarrow> \<not> skipped name \<Longrightarrow>
           distinct (map fst (dir_rows ancs (child_path p name) node))"
  shows "distinct (map fst (child_rows ancs p entries))"
  using assms
proof (induction entries)
  case Nil
  then show ?case by simp
next
  case (Cons e entries)
  obtain name node where e: "e = (name, node)" by (cases e)
  have rest: "distinct (map fst (child_rows ancs p entries))"
    using Cons.prems by (intro Cons.IH) auto
  show ?case
  proof (cases "skipped name")
    case True
    with rest e show ?thesis by simp
  next
    case False
    have here: "distinct (map fst (dir_rows ancs (child_path p name) node))"
      using Cons.prems(3) [of name node] e False by simp
    have "fst r1 \<noteq> fst r2"
      if "r1 \<in> set (dir_rows ancs (child_path p name) node)"
        and "r2 \<in> set (child_rows ancs p entries)" for r1 r2
    proof -
      from child_rows_mem [OF that(2)] obtain name2 node2 where
        m: "(name2, node2) \<in> set entries"
          "r2 \<in> set (dir_rows ancs (child_path p name2) node2)"
        by blast
      from m(1) Cons.prems(1) e have "name \<noteq> name2" by force
      moreover from m(1) Cons.prems(2) e have
        "PATH_SEPARATOR \<notin> set name" "PATH_SEPARATOR \<notin> set name2" by auto
      ultimately show ?thesis
        using sibling_rows_disjoint that(1) m(2) by blast
    qed
    then have "set (map fst (dir_rows ancs (child_path p name) node))
                 \<inter> set (map fst (child_rows ancs p entries)) = {}"
      by auto
    with here rest e False show ?thesis by simp
  qed
qed

lemma distinct_dir_rows:
  "wf_names node \<Longrightarrow> distinct (map fst (dir_rows ancs p node))"
proof (induction ancs p node rule: dir_rows.induct)
  case (1 ancs p entries)
  let ?ancs = "(p, file_count (Dir entries)) # ancs"
  have "distinct (map fst (child_rows ?ancs p entries))"
  proof (rule distinct_child_rows)
    from "1.prems" show "distinct (map fst entries)" by simp
    from "1.prems" show "\<forall>(name, node)\<in>set entries. PATH_SEPARATOR \<notin> set name" by auto
    fix name node
    assume m: "(name, node) \<in> set entries" "\<not> skipped name"
    with "1.prems" have "wf_names node" by auto
    from "1.IH" [OF m(1) refl m(2) this]
    show "distinct (map fst (dir_rows ?ancs (child_path p name) node))" .
  qed
  moreover have "p \<notin> set (map fst (child_rows ?ancs p entries))"
    using child_rows_not_parent [of p ?ancs entries] by simp
  ultimately show ?case by (simp add: dir_rows_Dir)
qed simp_all

subsection \<open>Ancestors\<close>

text \<open>Every ancestor recorded in a row is one of the given ones or has a row of its own.\<close>

lemma dir_rows_ancestors:
  "r \<in> set (dir_rows ancs p node) \<Longrightarrow> x \<in> set (snd (snd r)) \<Longrightarrow>
     x \<in> set ancs \<or> (\<exists>a. (fst x, snd x, a) \<in> set (dir_rows ancs p node))"
proof (induction ancs p node arbitrary: r rule: dir_rows.induct)
  case (1 ancs p entries)
  let ?root = "(p, file_count (Dir entries), ancs)"
  let ?ancs = "(p, file_count (Dir entries)) # ancs"
  show ?case
  proof (cases "r = ?root")
    case True
    with "1.prems"(2) show ?thesis by simp
  next
    case False
    with "1.prems"(1) have "r \<in> set (child_rows ?ancs p entries)"
      by (simp add: dir_rows_Dir)
    from child_rows_mem [OF this] obtain name node where
      m: "(name, node) \<in> set entries" "\<not> skipped name"
        "r \<in> set (dir_rows ?ancs (child_path p name) node)"
      by blast
    from "1.IH" [OF m(1) refl m(2) m(3) "1.prems"(2)]
    consider "x \<in> set ?ancs"
      | a where "(fst x, snd x, a) \<in> set (dir_rows ?ancs (child_path p name) node)"
      by blast
    then show ?thesis
    proof cases
      case 1
      then have "x = (p, file_count (Dir entries)) \<or> x \<in> set ancs" by simp
      then show ?thesis
      proof
        assume "x = (p, file_count (Dir entries))"
        then have "(fst x, snd x, ancs) \<in> set (dir_rows ancs p (Dir entries))"
          by (simp add: dir_rows_Dir)
        then show ?thesis by blast
      qed simp
    next
      case 2
      with m(1,2) have "(fst x, snd x, a) \<in> set (child_rows ?ancs p entries)"
        by (auto simp: child_rows_def intro!: bexI [of _ "(name, node)"])
      then show ?thesis by (auto simp: dir_rows_Dir)
    qed
  qed
qed simp_all

lemma file_count_child_le:
  "(name, node) \<in> set entries \<Longrightarrow> \<not> skipped name \<Longrightarrow>
     file_count node \<le> file_count (Dir entries)"
proof (induction entries)
  case Nil
  then show ?case by simp
next
  case (Cons e entries)
  obtain n' nd' where e: "e = (n', nd')" by (cases e)
  show ?case
  proof (cases "(name, node) = e")
    case True
    with e have "name = n'" "nd' = node" by simp_all
    with Cons.prems(2) e show ?thesis by (cases node) simp_all
  next
    case False
    with Cons.prems have "file_count node \<le> file_count (Dir entries)"
      by (intro Cons.IH) auto
    with e show ?thesis by simp
  qed
qed

text \<open>Going up from a directory, the recursive file counts do not decrease.\<close>

lemma dir_rows_counts_increase:
  "r \<in> set (dir_rows ancs p node) \<Longrightarrow>
     sorted_wrt (\<lambda>x y. snd x \<le> snd y) ancs \<Longrightarrow>
     \<forall>x\<in>set ancs. file_count node \<le> snd x \<Longrightarrow>
     sorted_wrt (\<lambda>x y. snd x \<le> snd y) (snd (snd r))"
proof (induction ancs p node arbitrary: r rule: dir_rows.induct)
  case (1 ancs p entries)
  let ?root = "(p, file_count (Dir entries), ancs)"
  let ?ancs = "(p, file_count (Dir entries)) # ancs"
  show ?case
  proof (cases "r = ?root")
    case True
    with "1.prems"(2) show ?thesis by simp
  next
    case False
    with "1.prems"(1) have "r \<in> set (child_rows ?ancs p entries)"
      by (simp add: dir_rows_Dir)
    from child_rows_mem [OF this] obtain name node where
      m: "(name, node) \<in> set entries" "\<not> skipped name"
        "r \<in> set (dir_rows ?ancs (child_path p name) node)"
      by blast
    have s: "sorted_wrt (\<lambda>x y. snd x \<le> snd y) ?ancs"
      using "1.prems"(2,3) by simp
    have "file_count node \<le> file_count (Dir entries)"
      by (rule file_count_child_le [OF m(1,2)])
    with "1.prems"(3) have "\<forall>x\<in>set ?ancs. file_count node \<le> snd x"
      by auto
    from "1.IH" [OF m(1) refl m(2) m(3) s this] show ?thesis .
  qed
qed simp_all

subsection \<open>Looking rows up\<close>

lemma map_of_rev_distinct: "distinct (map fst xs) \<Longrightarrow> map_of (rev xs) = map_of xs"
  using map_of_inject_set [of "rev xs" xs] by (simp add: rev_map [symmetric])

lemma map_of_row_counts:
  assumes "distinct (map fst rows)"
  shows "map_of (row_counts rows) k = Some v \<longleftrightarrow> (\<exists>c a. (k, c, a) \<in> set rows \<and> v = int c)"
proof -
  have "distinct (map fst (row_counts rows))" using assms by simp
  then have "map_of (row_counts rows) k = Some v \<longleftrightarrow> (k, v) \<in> set (row_counts rows)"
    by simp
  also have "\<dots> \<longleftrightarrow> (\<exists>c a. (k, c, a) \<in> set rows \<and> v = int c)"
    by (force simp: row_counts_def)
  finally show ?thesis .
qed

lemma map_of_row_parents:
  assumes "distinct (map fst rows)"
  shows "map_of (row_parents rows) k = Some q \<longleftrightarrow>
           (\<exists>c a. (k, c, a) \<in> set rows \<and> q = parent_path a)"
proof -
  have "distinct (map fst (row_parents rows))" using assms by simp
  then have "map_of (row_parents rows) k = Some q \<longleftrightarrow> (k, q) \<in> set (row_parents rows)"
    by simp
  also have "\<dots> \<longleftrightarrow> (\<exists>c a. (k, c, a) \<in> set rows \<and> q = parent_path a)"
    by (force simp: row_parents_def)
  finally show ?thesis .
qed

lemma row_unique:
  assumes "distinct (map fst rows)" "(k, c, a) \<in> set rows" "(k, c', a') \<in> set rows"
  shows "c' = c \<and> a' = a"
  using assms by (metis eq_key_imp_eq_value prod.inject)

subsection \<open>Paths below the root\<close>

lemma root_rows_path:
  assumes "r \<in> set (dir_rows ancs CURRENT_DIRECTORY node)"
  shows "(fst r = CURRENT_DIRECTORY \<and> clean_path (fst r) = CURRENT_DIRECTORY)
         \<or> (fst r = CURRENT_DIRECTORY @ [PATH_SEPARATOR] @ clean_path (fst r)
             \<and> clean_path (fst r) \<noteq> CURRENT_DIRECTORY)"
proof (cases node)
  case (Dir entries)
  let ?ancs = "(CURRENT_DIRECTORY, file_count (Dir entries)) # ancs"
  show ?thesis
  proof (cases "r = (CURRENT_DIRECTORY, file_count (Dir entries), ancs)")
    case True
    then show ?thesis
      by (simp add: clean_path_def CURRENT_DIRECTORY_def)
  next
    case False
    with assms Dir have "r \<in> set (child_rows ?ancs CURRENT_DIRECTORY entries)"
      by (simp add: dir_rows_Dir)
    from child_rows_mem [OF this] obtain name nd where
      m: "\<not> skipped name"
        "r \<in> set (dir_rows ?ancs (child_path CURRENT_DIRECTORY name) nd)"
      by blast
    from dir_rows_extends [OF m(2)] obtain rest where
      q: "fst r = child_path CURRENT_DIRECTORY name @ rest"
        and rest: "rest = [] \<or> hd rest = PATH_SEPARATOR"
      by blast
    from q have c: "clean_path (fst r) = name @ rest"
      by (simp add: clean_path_def child_path_def CURRENT_DIRECTORY_def)
    have "name @ rest \<noteq> CURRENT_DIRECTORY"
    proof
      assume e: "name @ rest = CURRENT_DIRECTORY"
      show False
      proof (cases name)
        case Nil
        with e rest show ?thesis
          by (auto simp: CURRENT_DIRECTORY_def PATH_SEPARATOR_def)
      next
        case (Cons c cs)
        with e m(1) show ?thesis
          by (auto simp: CURRENT_DIRECTORY_def skipped_def)
      qed
    qed
    with q c show ?thesis by (simp add: child_path_def)
  qed
qed (use assms in simp_all)

lemma root_rows_clean_inj:
  assumes "r1 \<in> set (dir_rows ancs CURRENT_DIRECTORY node)"
    and "r2 \<in> set (dir_rows ancs CURRENT_DIRECTORY node)"
    and "clean_path (fst r1) = clean_path (fst r2)"
  shows "fst r1 = fst r2"
  using root_rows_path [OF assms(1)] root_rows_path [OF assms(2)] assms(3)
  by (elim disjE conjE) simp_all

lemma root_rows_not_empty:
  assumes "r \<in> set (dir_rows ancs CURRENT_DIRECTORY node)"
  shows "fst r \<noteq> NO_PATH"
  using dir_rows_extends [OF assms] by (auto simp: CURRENT_DIRECTORY_def NO_PATH_def)

subsection \<open>Sorting strings\<close>

lemma sort_cong_mset: "mset xs = mset ys \<Longrightarrow> sort xs = sort (ys::string list)"
  by (rule properties_for_sort) simp_all

lemma distinct_same_set_sort:
  assumes "distinct (map fst xs)" "distinct (map fst ys)"
    and "fst ` set xs = fst ` set ys"
  shows "sort (map (\<lambda>x. clean_path (fst x)) xs) = sort (map (\<lambda>y. clean_path (fst y)) ys)"
proof -
  from assms have "mset (map fst xs) = mset (map fst ys)"
    by (metis set_eq_iff_mset_eq_distinct set_map)
  then have "mset (map clean_path (map fst xs)) = mset (map clean_path (map fst ys))"
    by (metis mset_map)
  then show ?thesis
    by (intro sort_cong_mset) (simp add: comp_def)
qed

subsection \<open>Vacant directories\<close>

text \<open>
  With the tables a traversal from the empty tables leaves, and the sentinel entry added,
  the keys the vacancy loop selects are the paths of the top-level vacant rows.
\<close>

lemma vacant_keys:
  assumes rows: "rows = dir_rows [] CURRENT_DIRECTORY cwd"
    and d: "distinct (map fst rows)"
    and N: "map_of N = (map_of (row_counts rows))(NO_PATH \<mapsto> 1)"
    and P: "map_of P = map_of (row_parents rows)"
    and dN: "distinct (map fst N)"
  shows "fst ` {x \<in> set N. snd x = 0 \<and> at N (parent_at P (fst x)) > 0} =
         fst ` {r \<in> set rows. top_level_vacant r}"
proof -
  have not_empty: "k \<noteq> NO_PATH" if "(k, c, a) \<in> set rows" for k c a
    using root_rows_not_empty [of "(k, c, a)" "[]" cwd] that by (simp add: rows)
  have count: "map_of N k = Some (int c)" if "(k, c, a) \<in> set rows" for k c a
    using that not_empty [OF that] map_of_row_counts [OF d, of k "int c"]
    by (auto simp: N)
  have parent: "at N (parent_at P k) = int (parent_count a)"
    if r: "(k, c, a) \<in> set rows" for k c a
  proof -
    from r map_of_row_parents [OF d, of k "parent_path a"]
    have "map_of P k = Some (parent_path a)" by (auto simp: P)
    then have p: "parent_at P k = parent_path a" by (simp add: parent_at_def)
    show ?thesis
    proof (cases a)
      case Nil
      then show ?thesis
        by (simp add: p parent_path_def parent_count_def at_def N)
    next
      case (Cons x t)
      obtain y cy where x: "x = (y, cy)" by (cases x)
      from r Cons x have "(y, cy) \<in> set (snd (snd (k, c, a)))" by simp
      from dir_rows_ancestors [OF r [unfolded rows] this]
      obtain a' where "(y, cy, a') \<in> set rows" by (auto simp: rows)
      from count [OF this] Cons x show ?thesis
        by (simp add: p parent_path_def parent_count_def at_def)
    qed
  qed
  show ?thesis
  proof (intro set_eqI iffI)
    fix k
    assume "k \<in> fst ` {x \<in> set N. snd x = 0 \<and> at N (parent_at P (fst x)) > 0}"
    then obtain v where kv: "(k, v) \<in> set N" "v = 0" "at N (parent_at P k) > 0"
      by auto
    from kv(1) dN have m: "map_of N k = Some v" by simp
    have "k \<noteq> NO_PATH"
    proof
      assume "k = NO_PATH"
      with m kv(2) show False by (simp add: N)
    qed
    with m have "map_of (row_counts rows) k = Some v" by (simp add: N)
    with map_of_row_counts [OF d, of k v] obtain c a where
      r: "(k, c, a) \<in> set rows" "v = int c" by auto
    from parent [OF r(1)] kv(3) have "parent_count a \<noteq> 0" by simp
    with r kv(2) have "top_level_vacant (k, c, a)" by (simp add: top_level_vacant_def)
    with r(1) show "k \<in> fst ` {r \<in> set rows. top_level_vacant r}" by force
  next
    fix k
    assume "k \<in> fst ` {r \<in> set rows. top_level_vacant r}"
    then obtain c a where r: "(k, c, a) \<in> set rows" "top_level_vacant (k, c, a)"
      by auto
    then have z: "c = 0" "parent_count a \<noteq> 0" by (simp_all add: top_level_vacant_def)
    from count [OF r(1)] z(1) have "(k, 0) \<in> set N" by (simp add: map_of_SomeD)
    moreover from parent [OF r(1)] z(2) have "at N (parent_at P k) > 0" by simp
    ultimately show "k \<in> fst ` {x \<in> set N. snd x = 0 \<and> at N (parent_at P (fst x)) > 0}"
      by force
  qed
qed

lemma get_top_level_vacant_dirs_unfold:
  "fst (get_top_level_vacant_dirs g) =
     sort (map (\<lambda>x. clean_path (fst x))
             (filter (\<lambda>x. snd x = 0
                         \<and> at (AList.update NO_PATH 1 (n_files_map g))
                              (parent_at (parent_map g) (fst x)) > 0)
                (AList.update NO_PATH 1 (n_files_map g))))"
  by (simp add: get_top_level_vacant_dirs_def Let_def split_def)

lemma vacant_dirs_rows:
  assumes wf: "wf_names cwd"
    and small: "int (file_count cwd) \<le> INT_MAX"
    and run: "get_dir_stats globals_init CURRENT_DIRECTORY NO_PATH cwd = Inr (st, g1)"
  shows "fst (get_top_level_vacant_dirs g1) =
           sort (map (\<lambda>r. clean_path (fst r))
                   (filter top_level_vacant (dir_rows [] CURRENT_DIRECTORY cwd)))"
proof -
  let ?rows = "dir_rows [] CURRENT_DIRECTORY cwd"
  let ?N = "AList.update NO_PATH 1 (n_files_map g1)"
  note w = get_dir_stats_walk(1) [OF run]
  have d: "distinct (map fst ?rows)" by (rule distinct_dir_rows [OF wf])
  have "map_of (n_files_map g1) = map_of (rev (row_counts ?rows))"
    using walk_n_files_map(1) [OF w small, of "[]"] by (simp add: globals_init_def)
  also have "\<dots> = map_of (row_counts ?rows)"
    using d by (intro map_of_rev_distinct) simp
  finally have N: "map_of ?N = (map_of (row_counts ?rows))(NO_PATH \<mapsto> 1)"
    by (simp add: update_conv' del: fun_upd_apply)
  have "parent_path [] = NO_PATH" by (simp add: parent_path_def)
  from walk_parent_map(1) [OF w this]
  have "map_of (parent_map g1) = map_of (rev (row_parents ?rows))"
    by (simp add: globals_init_def)
  also have "\<dots> = map_of (row_parents ?rows)"
    using d by (intro map_of_rev_distinct) simp
  finally have P: "map_of (parent_map g1) = map_of (row_parents ?rows)" .
  have "distinct (map fst (n_files_map g1))"
    using walk_distinct_keys(1) [OF w] by (simp add: globals_init_def)
  then have dN: "distinct (map fst ?N)" by (rule distinct_update)
  have keys: "fst ` {x \<in> set ?N. snd x = 0 \<and> at ?N (parent_at (parent_map g1) (fst x)) > 0} =
         fst ` {r \<in> set ?rows. top_level_vacant r}"
    by (rule vacant_keys [OF refl d N P dN])
  show ?thesis
    unfolding get_top_level_vacant_dirs_unfold
  proof (rule distinct_same_set_sort)
    show "distinct (map fst (filter (\<lambda>x. snd x = 0
              \<and> at ?N (parent_at (parent_map g1) (fst x)) > 0) ?N))"
      using dN by (rule distinct_map_filter)
    show "distinct (map fst (filter top_level_vacant ?rows))"
      using d by (rule distinct_map_filter)
    show "fst ` set (filter (\<lambda>x. snd x = 0
              \<and> at ?N (parent_at (parent_map g1) (fst x)) > 0) ?N) =
          fst ` set (filter top_level_vacant ?rows)"
      using keys by simp
  qed
qed

text \<open>
  Claim C1.  For a well-formed tree analysed from the empty tables, \<open>vacant_dirs\<close> is the
  ascending sort of the reported paths of the top-level vacant directories.  So a path
  is in the list exactly when it is the reported path of a directory of the tree whose
  recursive file count is zero and whose parent's recursive file count is not zero (the
  root's parent counting as one file); the list is sorted; and every ancestor of a
  reported directory has a non-zero count and is not in the list.  The counts of the
  table are \<open>int\<close>s, so the tree is one with at most \<open>INT_MAX\<close> regular files.
\<close>

theorem vacant_dirs_are_the_top_level_vacant_directories:
  assumes "wf_names cwd"
    and "int (file_count cwd) \<le> INT_MAX"
    and "analyzeDir globals_init cwd n = Inr (res, g')"
  shows "vacant_dirs res =
           sort (map (\<lambda>r. clean_path (fst r))
                   (filter top_level_vacant (dir_rows [] CURRENT_DIRECTORY cwd)))
    \<and> (\<forall>q. q \<in> set (vacant_dirs res) \<longleftrightarrow>
             (\<exists>p c a. (p, c, a) \<in> set (dir_rows [] CURRENT_DIRECTORY cwd)
                \<and> c = 0 \<and> parent_count a \<noteq> 0 \<and> q = clean_path p))
    \<and> sorted (vacant_dirs res)
    \<and> (\<forall>p c a x cx. (p, c, a) \<in> set (dir_rows [] CURRENT_DIRECTORY cwd)
            \<and> c = 0 \<and> parent_count a \<noteq> 0 \<and> (x, cx) \<in> set a
          \<longrightarrow> cx \<noteq> 0 \<and> clean_path x \<notin> set (vacant_dirs res))"
proof -
  let ?rows = "dir_rows [] CURRENT_DIRECTORY cwd"
  from assms(3) obtain st g1 where
    run: "get_dir_stats globals_init CURRENT_DIRECTORY NO_PATH cwd = Inr (st, g1)"
    and "vacant_dirs res = fst (get_top_level_vacant_dirs g1)"
    by (rule analyzeDir_Inr) simp
  with vacant_dirs_rows [OF assms(1,2) run]
  have v: "vacant_dirs res =
             sort (map (\<lambda>r. clean_path (fst r)) (filter top_level_vacant ?rows))"
    by simp
  have d: "distinct (map fst ?rows)" by (rule distinct_dir_rows [OF assms(1)])
  have mem: "q \<in> set (vacant_dirs res) \<longleftrightarrow>
             (\<exists>p c a. (p, c, a) \<in> set ?rows \<and> c = 0 \<and> parent_count a \<noteq> 0
                \<and> q = clean_path p)" for q
    unfolding v by (force simp: top_level_vacant_def)
  have s: "sorted (vacant_dirs res)" unfolding v by simp
  have anc: "cx \<noteq> 0 \<and> clean_path x \<notin> set (vacant_dirs res)"
    if r: "(p, c, a) \<in> set ?rows" and z: "c = 0" "parent_count a \<noteq> 0"
      and x: "(x, cx) \<in> set a" for p c a x cx
  proof -
    have "sorted_wrt (\<lambda>x y. snd x \<le> snd y) (snd (snd (p, c, a)))"
      by (rule dir_rows_counts_increase [OF r]) simp_all
    then have sorted: "sorted_wrt (\<lambda>x y. snd x \<le> snd y) a" by simp
    from x obtain h t where a: "a = h # t" by (cases a) auto
    with z(2) have "snd h \<noteq> 0" by (simp add: parent_count_def split: prod.splits)
    moreover from sorted a x have "snd h \<le> cx" by auto
    ultimately have cx: "cx \<noteq> 0" by simp
    have "clean_path x \<notin> set (vacant_dirs res)"
    proof
      assume "clean_path x \<in> set (vacant_dirs res)"
      with mem obtain p' c' a' where
        r': "(p', c', a') \<in> set ?rows" "c' = 0" "clean_path x = clean_path p'"
        by blast
      from x have "(x, cx) \<in> set (snd (snd (p, c, a)))" by simp
      from dir_rows_ancestors [OF r this] obtain ax where
        rx: "(x, cx, ax) \<in> set ?rows" by auto
      from root_rows_clean_inj [OF rx r'(1)] r'(3) have "x = p'" by simp
      with row_unique [OF d rx] r'(1) have "c' = cx" by blast
      with r'(2) cx show False by simp
    qed
    with cx show ?thesis by simp
  qed
  from v mem s anc show ?thesis by blast
qed

lemma example_rows:
  "dir_rows [] CURRENT_DIRECTORY example_tree =
     [(''.'', 4, []),
      (''./pics'', 2, [(''.'', 4)]),
      (''./pics/raw'', 0, [(''./pics'', 2), (''.'', 4)]),
      (''./void'', 0, [(''.'', 4)]),
      (''./void/deep'', 0, [(''./void'', 0), (''.'', 4)]),
      (''./void/deep/deeper'', 0, [(''./void/deep'', 0), (''./void'', 0), (''.'', 4)])]"
  by code_simp

theorem vacant_dirs_are_the_top_level_vacant_directories_witness:
  "wf_names example_tree
   \<and> int (file_count example_tree) \<le> INT_MAX
   \<and> analyzeDir globals_init example_tree 2 = Inr (example_result, example_final_tables)
   \<and> map fst (filter top_level_vacant (dir_rows [] CURRENT_DIRECTORY example_tree)) =
       [''./pics/raw'', ''./void'']
   \<and> vacant_dirs example_result = [''pics/raw'', ''void'']
   \<and> (''./void/deep'', 0, [(''./void'', 0), (''.'', 4)])
        \<in> set (dir_rows [] CURRENT_DIRECTORY example_tree)
   \<and> ''void/deep'' \<notin> set (vacant_dirs example_result)
   \<and> (''./pics/raw'', 0, [(''./pics'', 2), (''.'', 4)])
        \<in> set (dir_rows [] CURRENT_DIRECTORY example_tree)
   \<and> clean_path ''./pics'' \<notin> set (vacant_dirs example_result)
   \<and> sorted (vacant_dirs example_result)"
proof -
  have c: "int (file_count example_tree) \<le> INT_MAX"
    by (simp add: example_tree_def INT_MAX_def)
  note t = vacant_dirs_are_the_top_level_vacant_directories
      [OF example_wf_names c example_analyzeDir]
  have f: "map fst (filter top_level_vacant (dir_rows [] CURRENT_DIRECTORY example_tree)) =
       [''./pics/raw'', ''./void'']"
    unfolding example_rows by (simp add: top_level_vacant_def parent_count_def)
  have m: "(''./void/deep'', 0, [(''./void'', 0), (''.'', 4)])
        \<in> set (dir_rows [] CURRENT_DIRECTORY example_tree)"
    "(''./pics/raw'', 0, [(''./pics'', 2), (''.'', 4)])
        \<in> set (dir_rows [] CURRENT_DIRECTORY example_tree)"
    unfolding example_rows by simp_all
  have p: "parent_count [(''./pics'', 2), (''.'', 4)] \<noteq> 0"
    by (simp add: parent_count_def)
  from t m(2) p have a: "clean_path ''./pics'' \<notin> set (vacant_dirs example_result)"
    by (metis list.set_intros(1))
  from t have s: "sorted (vacant_dirs example_result)" by blast
  have v: "vacant_dirs example_result = [''pics/raw'', ''void'']"
    by (simp add: example_result_def)
  then have n: "''void/deep'' \<notin> set (vacant_dirs example_result)" by simp
  from f m a s v n c example_wf_names example_analyzeDir show ?thesis by blast
qed

subsection \<open>A second analysis in the same process\<close>




end
